theory Spec2Isabelle
  imports Main "HOL-Library.Extended_Nat" "HOL-Library.Product_Lexorder"
begin

section \<open>The page replacement simulator of \<^verbatim>\<open>Page_Replacement.py\<close>\<close>

subsection \<open>Data model\<close>

text \<open>
  Page identifiers and the frame count are Python integers (\<open>int\<close>); the two counters
  start at zero and are only incremented (\<open>nat\<close>). The exceptions the code can raise are
  values of \<open>py_error\<close>, and a function that can raise returns \<open>py_error + 'a\<close>.

  A log entry is one of the two strings the code appends:
  \<^verbatim>\<open>f"Page {removed} replaced by {page}"\<close> is \<open>Replaced removed page\<close>, and
  \<^verbatim>\<open>f"Memory State: {list(state)}"\<close> is \<open>MemoryState state\<close>.
\<close>

datatype py_error = IndexError | KeyError | ValueError | ZeroDivisionError

datatype log_entry = Replaced int int | MemoryState "int list"

record simulator =
  frames :: int
  reference_string :: "int list"
  page_faults :: nat
  page_hits :: nat
  log :: "log_entry list"

text \<open>\<^verbatim>\<open>__init__\<close>, \<^verbatim>\<open>log_state\<close> and \<^verbatim>\<open>reset_metrics\<close>.\<close>

definition init :: "int \<Rightarrow> int list \<Rightarrow> simulator" where
  "init fr refs =
     \<lparr>frames = fr, reference_string = refs, page_faults = 0, page_hits = 0, log = []\<rparr>"

definition log_state :: "int list \<Rightarrow> simulator \<Rightarrow> simulator" where
  "log_state state self = self\<lparr>log := log self @ [MemoryState state]\<rparr>"

definition reset_metrics :: "simulator \<Rightarrow> simulator" where
  "reset_metrics self = self\<lparr>page_faults := 0, page_hits := 0, log := []\<rparr>"

text \<open>
  A \<^verbatim>\<open>for\<close> loop whose body can raise: the body is a function of the loop state and the
  current element, and the first exception ends the loop.
\<close>

fun for_each :: "('st \<Rightarrow> 'a \<Rightarrow> py_error + 'st) \<Rightarrow> 'a list \<Rightarrow> 'st \<Rightarrow> py_error + 'st" where
  "for_each body [] st = Inr st"
| "for_each body (x # xs) st =
     (case body st x of Inl e \<Rightarrow> Inl e | Inr st' \<Rightarrow> for_each body xs st')"

text \<open>
  Python's \<^verbatim>\<open>min(iterable, key=f)\<close> and \<^verbatim>\<open>max(iterable, key=f)\<close>: \<^verbatim>\<open>ValueError\<close> on an
  empty iterable; otherwise the first element, in iteration order, whose key is minimal
  (maximal): the running best is replaced only by a strictly smaller (greater) key.
\<close>

fun py_min_by :: "('a \<Rightarrow> 'k::linorder) \<Rightarrow> 'a list \<Rightarrow> py_error + 'a" where
  "py_min_by key [] = Inl ValueError"
| "py_min_by key (x # xs) =
     Inr (foldl (\<lambda>best y. if key y < key best then y else best) x xs)"

fun py_max_by :: "('a \<Rightarrow> 'k::linorder) \<Rightarrow> 'a list \<Rightarrow> py_error + 'a" where
  "py_max_by key [] = Inl ValueError"
| "py_max_by key (x # xs) =
     Inr (foldl (\<lambda>best y. if key best < key y then y else best) x xs)"

subsection \<open>FIFO\<close>

text \<open>The deque is a list, oldest page first; \<^verbatim>\<open>popleft\<close> on an empty deque raises.\<close>

definition popleft :: "'a list \<Rightarrow> py_error + ('a \<times> 'a list)" where
  "popleft queue = (case queue of [] \<Rightarrow> Inl IndexError | x # q \<Rightarrow> Inr (x, q))"

definition fifo_step :: "int list \<times> simulator \<Rightarrow> int \<Rightarrow> py_error + (int list \<times> simulator)" where
  "fifo_step st page = (case st of (queue, self) \<Rightarrow>
     if page \<in> set queue then
       Inr (queue, log_state queue (self\<lparr>page_hits := page_hits self + 1\<rparr>))
     else
       let self1 = self\<lparr>page_faults := page_faults self + 1\<rparr> in
       if frames self1 \<le> int (length queue) then
         (case popleft queue of
            Inl e \<Rightarrow> Inl e
          | Inr (removed, q) \<Rightarrow>
              let self2 = self1\<lparr>log := log self1 @ [Replaced removed page]\<rparr>;
                  queue' = q @ [page]
              in Inr (queue', log_state queue' self2))
       else
         let queue' = queue @ [page] in Inr (queue', log_state queue' self1))"

definition fifo :: "simulator \<Rightarrow> py_error + simulator" where
  "fifo self =
     (case for_each fifo_step (reference_string self) ([], reset_metrics self) of
        Inl e \<Rightarrow> Inl e
      | Inr (queue, self') \<Rightarrow> Inr self')"

subsection \<open>LRU\<close>

text \<open>
  The \<^verbatim>\<open>OrderedDict\<close> maps every key to \<^verbatim>\<open>True\<close>, so it is the list of its keys in order,
  least recently used first. \<^verbatim>\<open>move_to_end\<close> raises \<^verbatim>\<open>KeyError\<close> on a missing key and
  \<^verbatim>\<open>popitem(last=False)\<close> on an empty dictionary.
\<close>

definition move_to_end :: "'a \<Rightarrow> 'a list \<Rightarrow> py_error + 'a list" where
  "move_to_end k cache =
     (if k \<in> set cache then Inr (removeAll k cache @ [k]) else Inl KeyError)"

definition popitem_first :: "'a list \<Rightarrow> py_error + ('a \<times> 'a list)" where
  "popitem_first cache = (case cache of [] \<Rightarrow> Inl KeyError | x # c \<Rightarrow> Inr (x, c))"

definition lru_step :: "int list \<times> simulator \<Rightarrow> int \<Rightarrow> py_error + (int list \<times> simulator)" where
  "lru_step st page = (case st of (cache, self) \<Rightarrow>
     if page \<in> set cache then
       (case move_to_end page cache of
          Inl e \<Rightarrow> Inl e
        | Inr cache' \<Rightarrow>
            Inr (cache', log_state cache' (self\<lparr>page_hits := page_hits self + 1\<rparr>)))
     else
       let self1 = self\<lparr>page_faults := page_faults self + 1\<rparr> in
       if frames self1 \<le> int (length cache) then
         (case popitem_first cache of
            Inl e \<Rightarrow> Inl e
          | Inr (removed, c) \<Rightarrow>
              let self2 = self1\<lparr>log := log self1 @ [Replaced removed page]\<rparr>;
                  cache' = c @ [page]
              in Inr (cache', log_state cache' self2))
       else
         let cache' = cache @ [page] in Inr (cache', log_state cache' self1))"

definition lru :: "simulator \<Rightarrow> py_error + simulator" where
  "lru self =
     (case for_each lru_step (reference_string self) ([], reset_metrics self) of
        Inl e \<Rightarrow> Inl e
      | Inr (cache, self') \<Rightarrow> Inr self')"

subsection \<open>LFU\<close>

text \<open>
  \<^verbatim>\<open>cache\<close> is a \<^verbatim>\<open>dict\<close> from resident page to insertion tag: an association list in
  insertion order, which is the order Python iterates it in. \<^verbatim>\<open>frequency\<close> is a
  \<^verbatim>\<open>Counter\<close>, which reads a missing key as 0: a total function. \<^verbatim>\<open>min(cache, key=...)\<close>
  iterates the keys and compares the tuples \<^verbatim>\<open>(frequency[k], cache[k])\<close>
  lexicographically; here it runs over the items, the key of \<open>(k, tag)\<close> being
  \<open>(frequency k, tag)\<close>.
\<close>

type_synonym lfu_state = "(int \<times> nat) list \<times> (int \<Rightarrow> nat) \<times> simulator"

definition lfu_step :: "lfu_state \<Rightarrow> int \<Rightarrow> py_error + lfu_state" where
  "lfu_step st page = (case st of (cache, frequency0, self) \<Rightarrow>
     let frequency = frequency0(page := frequency0 page + 1) in
     if page \<in> set (map fst cache) then
       Inr (cache, frequency,
            log_state (map fst cache) (self\<lparr>page_hits := page_hits self + 1\<rparr>))
     else
       let self1 = self\<lparr>page_faults := page_faults self + 1\<rparr> in
       if frames self1 \<le> int (length cache) then
         (case py_min_by (\<lambda>(k, tag). (frequency k, tag)) cache of
            Inl e \<Rightarrow> Inl e
          | Inr (least_used, tag) \<Rightarrow>
              let c = filter (\<lambda>(k, t). k \<noteq> least_used) cache;
                  self2 = self1\<lparr>log := log self1 @ [Replaced least_used page]\<rparr>;
                  cache' = c @ [(page, length (log self2))]
              in Inr (cache', frequency, log_state (map fst cache') self2))
       else
         let cache' = cache @ [(page, length (log self1))]
         in Inr (cache', frequency, log_state (map fst cache') self1))"

definition lfu :: "simulator \<Rightarrow> py_error + simulator" where
  "lfu self =
     (case for_each lfu_step (reference_string self) ([], (\<lambda>k. 0), reset_metrics self) of
        Inl e \<Rightarrow> Inl e
      | Inr (cache, frequency, self') \<Rightarrow> Inr self')"

subsection \<open>Optimal\<close>

text \<open>
  \<^verbatim>\<open>cache\<close> is a Python \<^verbatim>\<open>set\<close>, whose iteration order the language leaves to the
  implementation. The model keeps the elements of the set in the order they were added and
  takes the iteration order as a parameter \<open>iter\<close>: \<open>iter i c\<close> is the order in which the
  set is iterated during step \<open>i\<close> when its elements, in order of insertion, are \<open>c\<close>.
  Whatever the implementation does, it iterates every element exactly once
  (\<open>valid_order\<close>). Both iterations of a step go through \<open>iter\<close>: the dictionary
  comprehension that builds \<^verbatim>\<open>future_indices\<close> (whose key order \<^verbatim>\<open>max\<close> then follows) and
  \<^verbatim>\<open>list(state)\<close> in \<^verbatim>\<open>log_state\<close>.

  \<open>future_index rest p\<close> is
  \<^verbatim>\<open>rest.index(p) if p in rest else float('inf')\<close>, with \<^verbatim>\<open>rest = reference_string[i + 1:]\<close>.
\<close>

definition valid_order :: "(nat \<Rightarrow> int list \<Rightarrow> int list) \<Rightarrow> bool" where
  "valid_order iter \<longleftrightarrow>
     (\<forall>i c. distinct c \<longrightarrow> distinct (iter i c) \<and> set (iter i c) = set c)"

definition insertion_order :: "nat \<Rightarrow> int list \<Rightarrow> int list" where
  "insertion_order i c = c"

definition ascending_order :: "nat \<Rightarrow> int list \<Rightarrow> int list" where
  "ascending_order i c = sort c"

definition future_index :: "int list \<Rightarrow> int \<Rightarrow> enat" where
  "future_index rest p =
     (if p \<in> set rest then enat (length (takeWhile (\<lambda>x. x \<noteq> p) rest)) else \<infinity>)"

definition optimal_step ::
  "(nat \<Rightarrow> int list \<Rightarrow> int list) \<Rightarrow> int list \<times> simulator \<Rightarrow> nat \<times> int \<Rightarrow>
     py_error + (int list \<times> simulator)" where
  "optimal_step iter st ip = (case st of (cache, self) \<Rightarrow> case ip of (i, page) \<Rightarrow>
     if page \<in> set cache then
       Inr (cache, log_state (iter i cache) (self\<lparr>page_hits := page_hits self + 1\<rparr>))
     else
       let self1 = self\<lparr>page_faults := page_faults self + 1\<rparr> in
       if frames self1 \<le> int (length cache) then
         (case py_max_by (future_index (drop (i + 1) (reference_string self1)))
                 (iter i cache) of
            Inl e \<Rightarrow> Inl e
          | Inr to_replace \<Rightarrow>
              let c = removeAll to_replace cache;
                  self2 = self1\<lparr>log := log self1 @ [Replaced to_replace page]\<rparr>;
                  cache' = c @ [page]
              in Inr (cache', log_state (iter i cache') self2))
       else
         let cache' = cache @ [page] in Inr (cache', log_state (iter i cache') self1))"

definition optimal :: "(nat \<Rightarrow> int list \<Rightarrow> int list) \<Rightarrow> simulator \<Rightarrow> py_error + simulator" where
  "optimal iter self =
     (case for_each (optimal_step iter) (List.enumerate 0 (reference_string self))
             ([], reset_metrics self) of
        Inl e \<Rightarrow> Inl e
      | Inr (cache, self') \<Rightarrow> Inr self')"

subsection \<open>Report and driver\<close>

text \<open>
  \<^verbatim>\<open>display_results\<close> prints the log and the two counters, then the two percentages
  \<^verbatim>\<open>count / len(self.reference_string) * 100\<close>. Python's \<^verbatim>\<open>/\<close> raises
  \<^verbatim>\<open>ZeroDivisionError\<close> on a zero divisor. The quotient is a float; it is kept here as
  the exact pair of numerator and divisor (rounding and the two-decimal formatting are
  not modelled).
\<close>

datatype percentage = Percent nat nat

definition true_div_percent :: "nat \<Rightarrow> nat \<Rightarrow> py_error + percentage" where
  "true_div_percent count n = (if n = 0 then Inl ZeroDivisionError else Inr (Percent count n))"

record report =
  entries :: "log_entry list"
  total_faults :: nat
  total_hits :: nat
  fault_percentage :: percentage
  hit_percentage :: percentage

definition display_results :: "simulator \<Rightarrow> py_error + report" where
  "display_results self =
     (case true_div_percent (page_faults self) (length (reference_string self)) of
        Inl e \<Rightarrow> Inl e
      | Inr fp \<Rightarrow>
          (case true_div_percent (page_hits self) (length (reference_string self)) of
             Inl e \<Rightarrow> Inl e
           | Inr hp \<Rightarrow>
               Inr \<lparr>entries = log self, total_faults = page_faults self,
                    total_hits = page_hits self, fault_percentage = fp,
                    hit_percentage = hp\<rparr>))"

text \<open>
  \<^verbatim>\<open>main\<close>, after the two \<^verbatim>\<open>input\<close> calls have produced \<open>fr\<close> and \<open>refs\<close>. The result is the
  list of policy functions that were invoked, in call order, up to the end of the program,
  and either the uncaught exception or the four reports.
\<close>

datatype policy = FIFO | LRU | LFU | Optimal

definition main ::
  "(nat \<Rightarrow> int list \<Rightarrow> int list) \<Rightarrow> int \<Rightarrow> int list \<Rightarrow> policy list \<times> (py_error + report list)" where
  "main iter fr refs =
     (let simulator = init fr refs in
      case fifo simulator of Inl e \<Rightarrow> ([FIFO], Inl e) | Inr s1 \<Rightarrow>
     (case display_results s1 of Inl e \<Rightarrow> ([FIFO], Inl e) | Inr r1 \<Rightarrow>
     (case lru s1 of Inl e \<Rightarrow> ([FIFO, LRU], Inl e) | Inr s2 \<Rightarrow>
     (case display_results s2 of Inl e \<Rightarrow> ([FIFO, LRU], Inl e) | Inr r2 \<Rightarrow>
     (case lfu s2 of Inl e \<Rightarrow> ([FIFO, LRU, LFU], Inl e) | Inr s3 \<Rightarrow>
     (case display_results s3 of Inl e \<Rightarrow> ([FIFO, LRU, LFU], Inl e) | Inr r3 \<Rightarrow>
     (case optimal iter s3 of Inl e \<Rightarrow> ([FIFO, LRU, LFU, Optimal], Inl e) | Inr s4 \<Rightarrow>
     (case display_results s4 of Inl e \<Rightarrow> ([FIFO, LRU, LFU, Optimal], Inl e) | Inr r4 \<Rightarrow>
        ([FIFO, LRU, LFU, Optimal], Inr [r1, r2, r3, r4])))))))))"

subsection \<open>What one step of any policy does\<close>

text \<open>
  The four loop bodies differ in the order they keep the resident pages in and in the
  page they evict. \<open>step_spec\<close> is what they share, on the set \<open>A\<close> of resident pages:
  a hit changes nothing; a fault below capacity adds the page; a fault at capacity
  replaces some resident page \<open>v\<close> by the page and logs that first. Every step ends by
  logging a snapshot \<open>R\<close> that lists the new resident set once. \<open>abs_run\<close> is a sequence
  of such steps along a reference sequence.
\<close>

definition step_spec :: "int \<Rightarrow> int \<Rightarrow> int set \<Rightarrow> simulator \<Rightarrow> int set \<Rightarrow> simulator \<Rightarrow> bool" where
  "step_spec fr page A s A' s' \<longleftrightarrow> (\<exists>R. distinct R \<and> set R = A' \<and>
     (if page \<in> A then
        A' = A \<and> s' = s\<lparr>page_hits := page_hits s + 1, log := log s @ [MemoryState R]\<rparr>
      else if int (card A) < fr then
        A' = insert page A \<and>
        s' = s\<lparr>page_faults := page_faults s + 1, log := log s @ [MemoryState R]\<rparr>
      else
        (\<exists>v\<in>A. A' = insert page (A - {v}) \<and>
           s' = s\<lparr>page_faults := page_faults s + 1,
                   log := log s @ [Replaced v page, MemoryState R]\<rparr>)))"

inductive abs_run :: "int \<Rightarrow> int list \<Rightarrow> int set \<Rightarrow> simulator \<Rightarrow> simulator \<Rightarrow> bool"
  for fr :: int where
  abs_Nil: "abs_run fr [] A s s"
| abs_Cons: "step_spec fr p A s A' s' \<Longrightarrow> abs_run fr ps A' s' s'' \<Longrightarrow> abs_run fr (p # ps) A s s''"

subsection \<open>Reading a log\<close>

text \<open>
  \<open>snapshots\<close> are the memory states of a log, in order; \<open>is_replacement\<close> recognises a
  replacement entry.

  \<open>log_ordered prev refs l\<close>: the log \<open>l\<close> is one group of entries per reference, in
  order; a group is either a single snapshot, which then keeps every page of the previous
  resident set \<open>prev\<close>, or a replacement entry for the referenced page directly followed
  by a single snapshot, the replaced page being in \<open>prev\<close> and not in the snapshot.

  \<open>sizes_ok fr seen refs Rs\<close>: there is one snapshot per reference, each lists distinct
  pages, and its size is the smaller of \<open>fr\<close> and the number of distinct pages referenced
  so far (\<open>seen\<close> are those referenced before \<open>refs\<close>).

  \<open>sizes_bounded fr refs l\<close>: the log \<open>l\<close> has one snapshot per reference, and the
  snapshot of step \<open>k\<close> lists distinct pages, at most \<open>fr\<close> of them and at least the
  smaller of \<open>fr\<close> and the number of distinct pages among the first \<open>k + 1\<close> references.

  \<open>single_frame_faults prev refs\<close> counts the references that differ from the reference
  just before them (\<open>prev\<close> before the first).
\<close>

fun snapshots :: "log_entry list \<Rightarrow> int list list" where
  "snapshots [] = []"
| "snapshots (MemoryState R # l) = R # snapshots l"
| "snapshots (Replaced v p # l) = snapshots l"

fun is_replacement :: "log_entry \<Rightarrow> bool" where
  "is_replacement (Replaced v p) = True"
| "is_replacement (MemoryState R) = False"

fun log_ordered :: "int set \<Rightarrow> int list \<Rightarrow> log_entry list \<Rightarrow> bool" where
  "log_ordered prev [] l = (l = [])"
| "log_ordered prev (p # ps) (MemoryState R # l) =
     (prev \<subseteq> set R \<and> log_ordered (set R) ps l)"
| "log_ordered prev (p # ps) (Replaced v q # MemoryState R # l) =
     (q = p \<and> v \<in> prev \<and> v \<notin> set R \<and> log_ordered (set R) ps l)"
| "log_ordered prev (p # ps) l = False"

fun sizes_ok :: "int \<Rightarrow> int set \<Rightarrow> int list \<Rightarrow> int list list \<Rightarrow> bool" where
  "sizes_ok fr seen [] Rs = (Rs = [])"
| "sizes_ok fr seen (p # ps) [] = False"
| "sizes_ok fr seen (p # ps) (R # Rs) =
     (distinct R \<and> int (length R) = min fr (int (card (insert p seen))) \<and>
      sizes_ok fr (insert p seen) ps Rs)"

fun single_frame_faults :: "int option \<Rightarrow> int list \<Rightarrow> nat" where
  "single_frame_faults prev [] = 0"
| "single_frame_faults prev (p # ps) =
     (if prev = Some p then 0 else 1) + single_frame_faults (Some p) ps"

definition sizes_bounded :: "int \<Rightarrow> int list \<Rightarrow> log_entry list \<Rightarrow> bool" where
  "sizes_bounded fr refs l \<longleftrightarrow>
     length (snapshots l) = length refs \<and>
     (\<forall>k<length refs.
        distinct (snapshots l ! k) \<and>
        int (length (snapshots l ! k)) \<le> fr \<and>
        min fr (int (card (set (take (Suc k) refs)))) \<le> int (length (snapshots l ! k)))"

subsection \<open>LFU in the words of the specification\<close>

text \<open>
  Written from the words of the specification's section on LFU, to be compared with
  \<open>lfu\<close>; nothing here is taken from the code. The frequency of a page is the number of references
  made to it so far, the current one included (\<open>count_list\<close> over the references seen).
  Every resident page carries an insertion tag, and \<open>n\<close> counts the log entries written so
  far.

  \<open>least_frequent seen res v\<close>: \<open>v\<close> is the resident page with the smallest frequency,
  ties broken by the smallest insertion tag: every other resident page has a greater
  frequency, or the same frequency and a greater tag.

  \<open>lfu_spec fr seen res n refs l final\<close>: from the resident entries \<open>res\<close>, the
  references \<open>refs\<close> write exactly the log entries \<open>l\<close> and leave the resident entries
  \<open>final\<close>. A hit writes a snapshot. A fault below capacity inserts the page with tag
  \<open>n\<close> and writes a snapshot. A fault at capacity writes the replacement of the
  \<open>least_frequent\<close> page, inserts the page with tag \<open>n + 1\<close> (the replacement entry is
  in the log by then) and writes a snapshot. A snapshot lists the resident pages in
  insertion order.
\<close>

definition least_frequent :: "int list \<Rightarrow> (int \<times> nat) list \<Rightarrow> int \<Rightarrow> bool" where
  "least_frequent seen res v \<longleftrightarrow>
     (\<exists>(v', tv) \<in> set res. v' = v \<and>
        (\<forall>(k, t) \<in> set res. k \<noteq> v \<longrightarrow>
           count_list seen v < count_list seen k \<or>
           (count_list seen v = count_list seen k \<and> tv < t)))"

fun lfu_spec ::
  "int \<Rightarrow> int list \<Rightarrow> (int \<times> nat) list \<Rightarrow> nat \<Rightarrow> int list \<Rightarrow> log_entry list \<Rightarrow>
     (int \<times> nat) list \<Rightarrow> bool" where
  "lfu_spec fr seen res n [] l final = (l = [] \<and> final = res)"
| "lfu_spec fr seen res n (p # ps) (MemoryState R # l) final =
     (if p \<in> fst ` set res then
        R = map fst res \<and> lfu_spec fr (seen @ [p]) res (n + 1) ps l final
      else
        int (length res) < fr \<and> R = map fst res @ [p] \<and>
        lfu_spec fr (seen @ [p]) (res @ [(p, n)]) (n + 1) ps l final)"
| "lfu_spec fr seen res n (p # ps) (Replaced v q # MemoryState R # l) final =
     (q = p \<and> p \<notin> fst ` set res \<and> fr \<le> int (length res) \<and>
      least_frequent (seen @ [p]) res v \<and>
      R = map fst (filter (\<lambda>(k, t). k \<noteq> v) res) @ [p] \<and>
      lfu_spec fr (seen @ [p]) (filter (\<lambda>(k, t). k \<noteq> v) res @ [(p, n + 1)]) (n + 2) ps l final)"
| "lfu_spec fr seen res n (p # ps) l final = False"

subsection \<open>The fields a step leaves or counts\<close>

text \<open>The frame count, the reference sequence and the two counters of a simulator.\<close>

definition counters :: "simulator \<Rightarrow> int \<times> int list \<times> nat \<times> nat" where
  "counters s = (frames s, reference_string s, page_faults s, page_hits s)"

section \<open>Every policy refines the step specification\<close>

lemma for_each_abs_run:
  assumes step: "\<And>st x. I st \<Longrightarrow>
      \<exists>st'. body st x = Inr st' \<and> I st' \<and> step_spec fr (pg x) (res st) (sm st) (res st') (sm st')"
  shows "I st \<Longrightarrow>
      \<exists>st'. for_each body xs st = Inr st' \<and> I st' \<and> abs_run fr (map pg xs) (res st) (sm st) (sm st')"
proof (induction xs arbitrary: st)
  case Nil
  then show ?case by (auto intro: abs_Nil)
next
  case (Cons x xs)
  from step [OF Cons.prems, of x] obtain st1 where
    b: "body st x = Inr st1" and i: "I st1"
    and sp: "step_spec fr (pg x) (res st) (sm st) (res st1) (sm st1)" by blast
  from Cons.IH [OF i] obtain st2 where
    f: "for_each body xs st1 = Inr st2" and i2: "I st2"
    and r: "abs_run fr (map pg xs) (res st1) (sm st1) (sm st2)" by blast
  show ?case using b f i2 abs_Cons [OF sp r] by auto
qed

lemma fifo_step_spec:
  assumes "distinct q" "frames s = fr" "1 \<le> fr"
  shows "\<exists>q' s'. fifo_step (q, s) page = Inr (q', s') \<and> distinct q' \<and> frames s' = fr \<and>
           step_spec fr page (set q) s (set q') s'"
proof (cases "page \<in> set q")
  case True
  then show ?thesis using assms
    by (auto simp: fifo_step_def step_spec_def log_state_def)
next
  case False
  show ?thesis
  proof (cases "fr \<le> int (length q)")
    case full: True
    then obtain x q0 where q: "q = x # q0" using assms by (cases q) auto
    show ?thesis using False full assms unfolding q
      by (auto simp: fifo_step_def step_spec_def log_state_def popleft_def Let_def
            distinct_card intro!: exI [of _ "q0 @ [page]"])
  next
    case nf: False
    then show ?thesis using False assms
      by (auto simp: fifo_step_def step_spec_def log_state_def Let_def distinct_card
            intro!: exI [of _ "q @ [page]"])
  qed
qed


lemma foldl_min_in:
  "foldl (\<lambda>best y. if key y < key best then y else best) x xs \<in> set (x # xs)"
  by (induction xs arbitrary: x) auto

lemma foldl_min_le_start:
  fixes key :: "'a \<Rightarrow> 'k::linorder"
  shows "key (foldl (\<lambda>best y. if key y < key best then y else best) b xs) \<le> key b"
  by (induction xs arbitrary: b) (auto intro: order_trans less_imp_le)

lemma foldl_min_le_mem:
  fixes key :: "'a \<Rightarrow> 'k::linorder"
  shows "z \<in> set xs \<Longrightarrow>
    key (foldl (\<lambda>best y. if key y < key best then y else best) x xs) \<le> key z"
proof (induction xs arbitrary: x)
  case Nil
  then show ?case by simp
next
  case (Cons a xs)
  show ?case
  proof (cases "z = a")
    case True
    have "key (foldl (\<lambda>best y. if key y < key best then y else best)
                 (if key a < key x then a else x) xs)
            \<le> key (if key a < key x then a else x)"
      by (rule foldl_min_le_start)
    also have "\<dots> \<le> key a" by auto
    finally show ?thesis using True by simp
  next
    case False
    then have "z \<in> set xs" using Cons.prems by simp
    from Cons.IH [OF this] show ?thesis by simp
  qed
qed

lemma foldl_min_le:
  fixes key :: "'a \<Rightarrow> 'k::linorder"
  shows "z \<in> set (x # xs) \<Longrightarrow>
    key (foldl (\<lambda>best y. if key y < key best then y else best) x xs) \<le> key z"
  using foldl_min_le_start [of key x xs] foldl_min_le_mem [of z xs key x] by auto

lemma py_min_by_spec:
  fixes key :: "'a \<Rightarrow> 'k::linorder"
  assumes "xs \<noteq> []"
  shows "\<exists>m\<in>set xs. py_min_by key xs = Inr m \<and> (\<forall>z\<in>set xs. key m \<le> key z)"
proof -
  obtain x ys where xs: "xs = x # ys" using assms by (cases xs) auto
  show ?thesis unfolding xs using foldl_min_in [of key x ys] foldl_min_le [of _ x ys key]
    by (intro bexI [of _ "foldl (\<lambda>best y. if key y < key best then y else best) x ys"]) auto
qed

lemma foldl_max_in:
  "foldl (\<lambda>best y. if key best < key y then y else best) x xs \<in> set (x # xs)"
  by (induction xs arbitrary: x) auto

lemma py_max_by_in:
  assumes "xs \<noteq> []"
  shows "\<exists>m\<in>set xs. py_max_by key xs = Inr m"
proof -
  obtain x ys where xs: "xs = x # ys" using assms by (cases xs) auto
  show ?thesis unfolding xs using foldl_max_in [of key x ys] by auto
qed

lemma lru_step_spec:
  assumes "distinct c" "frames s = fr" "1 \<le> fr"
  shows "\<exists>c' s'. lru_step (c, s) page = Inr (c', s') \<and> distinct c' \<and> frames s' = fr \<and>
           step_spec fr page (set c) s (set c') s'"
proof (cases "page \<in> set c")
  case True
  then show ?thesis using assms
    by (auto simp: lru_step_def step_spec_def log_state_def move_to_end_def
          intro!: exI [of _ "removeAll page c @ [page]"] distinct_removeAll)
next
  case False
  show ?thesis
  proof (cases "fr \<le> int (length c)")
    case full: True
    then obtain x c0 where c: "c = x # c0" using assms by (cases c) auto
    show ?thesis using False full assms unfolding c
      by (auto simp: lru_step_def step_spec_def log_state_def popitem_first_def Let_def
            distinct_card intro!: exI [of _ "c0 @ [page]"])
  next
    case nf: False
    then show ?thesis using False assms
      by (auto simp: lru_step_def step_spec_def log_state_def Let_def distinct_card
            intro!: exI [of _ "c @ [page]"])
  qed
qed


lemma keys_filter_neq:
  "fst ` set (filter (\<lambda>(k, t). k \<noteq> v) c) = fst ` set c - {v}"
  by (auto simp: image_iff)

lemma lfu_step_spec:
  assumes "distinct (map fst c)" "frames s = fr" "1 \<le> fr"
  shows "\<exists>c' f' s'. lfu_step (c, f, s) page = Inr (c', f', s') \<and> distinct (map fst c') \<and>
           frames s' = fr \<and> step_spec fr page (set (map fst c)) s (set (map fst c')) s'"
proof (cases "page \<in> set (map fst c)")
  case True
  have "lfu_step (c, f, s) page =
      Inr (c, f(page := f page + 1), s\<lparr>page_hits := page_hits s + 1,
                      log := log s @ [MemoryState (map fst c)]\<rparr>)"
    using True by (simp add: lfu_step_def Let_def log_state_def)
  moreover have "step_spec fr page (set (map fst c)) s (set (map fst c))
      (s\<lparr>page_hits := page_hits s + 1, log := log s @ [MemoryState (map fst c)]\<rparr>)"
    unfolding step_spec_def using True assms(1)
    by (intro exI [of _ "map fst c"]) simp
  ultimately show ?thesis using assms(1,2) by auto
next
  case False
  show ?thesis
  proof (cases "fr \<le> int (length c)")
    case full: True
    then have ne: "c \<noteq> []" using assms by auto
    define f1 where "f1 = f(page := f page + 1)"
    from py_min_by_spec [OF ne, of "\<lambda>(k, tag). (f1 k, tag)"]
    obtain v tv where m: "(v, tv) \<in> set c"
      and pm: "py_min_by (\<lambda>(k, tag). (f1 k, tag)) c = Inr (v, tv)" by auto
    define c' where "c' = filter (\<lambda>(k, t). k \<noteq> v) c @ [(page, Suc (length (log s)))]"
    have v: "v \<in> fst ` set c" using m by force
    have d: "distinct (map fst c')"
      using assms(1) False unfolding c'_def
      by (auto simp: distinct_map_filter keys_filter_neq)
    have st: "set (map fst c') = insert page (set (map fst c) - {v})"
      unfolding c'_def by (auto simp: keys_filter_neq)
    have card: "card (fst ` set c) = length c"
      using assms(1) distinct_card [of "map fst c"] by simp
    have "lfu_step (c, f, s) page =
        Inr (c', f1, s\<lparr>page_faults := page_faults s + 1,
                        log := log s @ [Replaced v page, MemoryState (map fst c')]\<rparr>)"
      using False full assms(2) pm
      unfolding f1_def
      by (simp add: lfu_step_def Let_def log_state_def c'_def del: fun_upd_apply)
    moreover have "step_spec fr page (set (map fst c)) s (set (map fst c'))
        (s\<lparr>page_faults := page_faults s + 1,
            log := log s @ [Replaced v page, MemoryState (map fst c')]\<rparr>)"
      unfolding step_spec_def using False full d st v card
      by (intro exI [of _ "map fst c'"]) auto
    ultimately show ?thesis using d assms(2) by auto
  next
    case nf: False
    define c' where "c' = c @ [(page, length (log s))]"
    have card: "card (fst ` set c) = length c"
      using assms(1) distinct_card [of "map fst c"] by simp
    have "lfu_step (c, f, s) page =
        Inr (c', f(page := f page + 1), s\<lparr>page_faults := page_faults s + 1,
                        log := log s @ [MemoryState (map fst c')]\<rparr>)"
      using False nf assms(2)
      by (simp add: lfu_step_def Let_def log_state_def c'_def)
    moreover have "step_spec fr page (set (map fst c)) s (set (map fst c'))
        (s\<lparr>page_faults := page_faults s + 1,
            log := log s @ [MemoryState (map fst c')]\<rparr>)"
      unfolding step_spec_def using False nf assms(1) card
      by (intro exI [of _ "map fst c'"]) (auto simp: c'_def)
    moreover have "distinct (map fst c')" using False assms(1) by (auto simp: c'_def)
    ultimately show ?thesis using assms(2) by auto
  qed
qed

lemma optimal_step_spec:
  assumes vo: "valid_order iter" and "distinct c" "frames s = fr" "1 \<le> fr"
  shows "\<exists>c' s'. optimal_step iter (c, s) (i, page) = Inr (c', s') \<and> distinct c' \<and>
           frames s' = fr \<and> step_spec fr page (set c) s (set c') s'"
proof -
  have it: "distinct (iter j d) \<and> set (iter j d) = set d" if "distinct d" for j d
    using vo that unfolding valid_order_def by blast
  show ?thesis
  proof (cases "page \<in> set c")
    case True
    then show ?thesis using assms it [of c i]
      by (auto simp: optimal_step_def step_spec_def log_state_def
            intro!: exI [of _ "iter i c"])
  next
    case False
    show ?thesis
    proof (cases "fr \<le> int (length c)")
      case full: True
      then have "c \<noteq> []" using assms by auto
      then have ne: "iter i c \<noteq> []" using it [OF assms(2), of i] by auto
      from py_max_by_in [OF ne, of "future_index (drop (i + 1) (reference_string s))"]
      obtain v where v: "v \<in> set c"
        and pm: "py_max_by (future_index (drop (i + 1) (reference_string s))) (iter i c) = Inr v"
        using it [OF assms(2), of i] by auto
      define c' where "c' = removeAll v c @ [page]"
      have d: "distinct c'" using assms(2) False by (auto simp: c'_def distinct_removeAll)
      have st: "set c' = insert page (set c - {v})" by (auto simp: c'_def)
      have "optimal_step iter (c, s) (i, page) =
          Inr (c', s\<lparr>page_faults := page_faults s + 1,
                      log := log s @ [Replaced v page, MemoryState (iter i c')]\<rparr>)"
        using False full assms(3) pm
        by (simp add: optimal_step_def Let_def log_state_def c'_def)
      moreover have "step_spec fr page (set c) s (set c')
          (s\<lparr>page_faults := page_faults s + 1,
              log := log s @ [Replaced v page, MemoryState (iter i c')]\<rparr>)"
        unfolding step_spec_def using False full st v it [OF d, of i] assms(2)
        by (intro exI [of _ "iter i c'"]) (auto simp: distinct_card)
      ultimately show ?thesis using d assms(3) by auto
    next
      case nf: False
      define c' where "c' = c @ [page]"
      have d: "distinct c'" using assms(2) False by (auto simp: c'_def)
      have "optimal_step iter (c, s) (i, page) =
          Inr (c', s\<lparr>page_faults := page_faults s + 1,
                      log := log s @ [MemoryState (iter i c')]\<rparr>)"
        using False nf assms(3)
        by (simp add: optimal_step_def Let_def log_state_def c'_def)
      moreover have "step_spec fr page (set c) s (set c')
          (s\<lparr>page_faults := page_faults s + 1,
              log := log s @ [MemoryState (iter i c')]\<rparr>)"
        unfolding step_spec_def using False nf it [OF d, of i] assms(2)
        by (intro exI [of _ "iter i c'"]) (auto simp: distinct_card c'_def)
      ultimately show ?thesis using d assms(3) by auto
    qed
  qed
qed


lemma fifo_abs_run:
  assumes "1 \<le> frames sim"
  shows "\<exists>r. fifo sim = Inr r \<and>
           abs_run (frames sim) (reference_string sim) {} (reset_metrics sim) r"
proof -
  let ?I = "\<lambda>st. distinct (fst st) \<and> frames (snd st) = frames sim"
  have step: "\<exists>st'. fifo_step st x = Inr st' \<and> ?I st' \<and>
      step_spec (frames sim) ((\<lambda>x. x) x) ((\<lambda>st. set (fst st)) st) (snd st)
        ((\<lambda>st. set (fst st)) st') (snd st')"
    if "?I st" for st x
    using fifo_step_spec [of "fst st" "snd st" "frames sim" x] assms that
    by (cases st) auto
  have init: "?I ([], reset_metrics sim)" by (simp add: reset_metrics_def)
  from for_each_abs_run [where I = ?I and body = fifo_step and fr = "frames sim"
      and pg = "\<lambda>x. x" and res = "\<lambda>st. set (fst st)" and sm = snd
      and xs = "reference_string sim", OF step init]
  show ?thesis by (auto simp: fifo_def)
qed

lemma lru_abs_run:
  assumes "1 \<le> frames sim"
  shows "\<exists>r. lru sim = Inr r \<and>
           abs_run (frames sim) (reference_string sim) {} (reset_metrics sim) r"
proof -
  let ?I = "\<lambda>st. distinct (fst st) \<and> frames (snd st) = frames sim"
  have step: "\<exists>st'. lru_step st x = Inr st' \<and> ?I st' \<and>
      step_spec (frames sim) ((\<lambda>x. x) x) ((\<lambda>st. set (fst st)) st) (snd st)
        ((\<lambda>st. set (fst st)) st') (snd st')"
    if "?I st" for st x
    using lru_step_spec [of "fst st" "snd st" "frames sim" x] assms that
    by (cases st) auto
  have init: "?I ([], reset_metrics sim)" by (simp add: reset_metrics_def)
  from for_each_abs_run [where I = ?I and body = lru_step and fr = "frames sim"
      and pg = "\<lambda>x. x" and res = "\<lambda>st. set (fst st)" and sm = snd
      and xs = "reference_string sim", OF step init]
  show ?thesis by (auto simp: lru_def)
qed

lemma lfu_abs_run:
  assumes "1 \<le> frames sim"
  shows "\<exists>r. lfu sim = Inr r \<and>
           abs_run (frames sim) (reference_string sim) {} (reset_metrics sim) r"
proof -
  let ?I = "\<lambda>st::lfu_state. distinct (map fst (fst st)) \<and> frames (snd (snd st)) = frames sim"
  have step: "\<exists>st'. lfu_step st x = Inr st' \<and> ?I st' \<and>
      step_spec (frames sim) ((\<lambda>x. x) x) ((\<lambda>st. set (map fst (fst st))) st)
        ((\<lambda>st. snd (snd st)) st)
        ((\<lambda>st. set (map fst (fst st))) st') ((\<lambda>st. snd (snd st)) st')"
    if "?I st" for st x
    using lfu_step_spec [of "fst st" "snd (snd st)" "frames sim" "fst (snd st)" x] assms that
    by (cases st) auto
  have init: "?I ([], (\<lambda>k. 0), reset_metrics sim)" by (simp add: reset_metrics_def)
  from for_each_abs_run [where I = ?I and body = lfu_step and fr = "frames sim"
      and pg = "\<lambda>x. x" and res = "\<lambda>st. set (map fst (fst st))"
      and sm = "\<lambda>st. snd (snd st)"
      and xs = "reference_string sim", OF step init]
  show ?thesis by (auto simp: lfu_def)
qed

lemma map_snd_enumerate: "map snd (List.enumerate n xs) = xs"
  by (induction xs arbitrary: n) auto

lemma optimal_abs_run:
  assumes "1 \<le> frames sim" and vo: "valid_order iter"
  shows "\<exists>r. optimal iter sim = Inr r \<and>
           abs_run (frames sim) (reference_string sim) {} (reset_metrics sim) r"
proof -
  let ?I = "\<lambda>st. distinct (fst st) \<and> frames (snd st) = frames sim"
  have step: "\<exists>st'. optimal_step iter st x = Inr st' \<and> ?I st' \<and>
      step_spec (frames sim) (snd x) ((\<lambda>st. set (fst st)) st) (snd st)
        ((\<lambda>st. set (fst st)) st') (snd st')"
    if "?I st" for st x
    using optimal_step_spec [OF vo, of "fst st" "snd st" "frames sim" "fst x" "snd x"]
      assms that
    by (cases st; cases x) auto
  have init: "?I ([], reset_metrics sim)" by (simp add: reset_metrics_def)
  from for_each_abs_run [where I = ?I and body = "optimal_step iter" and fr = "frames sim"
      and pg = snd and res = "\<lambda>st. set (fst st)" and sm = snd
      and xs = "List.enumerate 0 (reference_string sim)", OF step init]
  show ?thesis by (auto simp: optimal_def map_snd_enumerate)
qed

lemma abs_run_counts:
  "abs_run fr ps A s s' \<Longrightarrow>
     page_hits s' + page_faults s' = page_hits s + page_faults s + length ps"
  by (induction rule: abs_run.induct) (auto simp: step_spec_def split: if_splits)


lemma step_specE:
  assumes "step_spec fr p A s A' s'"
  obtains
    (hit) R where "p \<in> A" "A' = A" "distinct R" "set R = A'"
      "s' = s\<lparr>page_hits := page_hits s + 1, log := log s @ [MemoryState R]\<rparr>"
  | (fill) R where "p \<notin> A" "int (card A) < fr" "A' = insert p A" "distinct R" "set R = A'"
      "s' = s\<lparr>page_faults := page_faults s + 1, log := log s @ [MemoryState R]\<rparr>"
  | (evict) R v where "p \<notin> A" "fr \<le> int (card A)" "v \<in> A" "A' = insert p (A - {v})"
      "distinct R" "set R = A'"
      "s' = s\<lparr>page_faults := page_faults s + 1,
               log := log s @ [Replaced v p, MemoryState R]\<rparr>"
proof -
  from assms obtain R where R: "distinct R" "set R = A'"
    and c: "if p \<in> A then
        A' = A \<and> s' = s\<lparr>page_hits := page_hits s + 1, log := log s @ [MemoryState R]\<rparr>
      else if int (card A) < fr then
        A' = insert p A \<and>
        s' = s\<lparr>page_faults := page_faults s + 1, log := log s @ [MemoryState R]\<rparr>
      else
        (\<exists>v\<in>A. A' = insert p (A - {v}) \<and>
           s' = s\<lparr>page_faults := page_faults s + 1,
                   log := log s @ [Replaced v p, MemoryState R]\<rparr>)"
    unfolding step_spec_def by blast
  show thesis
  proof (cases "p \<in> A")
    case True
    then show thesis using c R hit by simp
  next
    case False
    show thesis
    proof (cases "int (card A) < fr")
      case True
      then show thesis using c R fill \<open>p \<notin> A\<close> by simp
    next
      case False
      with c \<open>p \<notin> A\<close> obtain v where "v \<in> A" "A' = insert p (A - {v})"
        "s' = s\<lparr>page_faults := page_faults s + 1,
               log := log s @ [Replaced v p, MemoryState R]\<rparr>" by auto
      then show thesis using R evict [of v R] \<open>p \<notin> A\<close> False by simp
    qed
  qed
qed

lemma abs_run_log_ordered:
  "abs_run fr ps A s s' \<Longrightarrow> \<exists>l. log s' = log s @ l \<and> log_ordered A ps l"
proof (induction rule: abs_run.induct)
  case (abs_Nil A s)
  then show ?case by simp
next
  case (abs_Cons p A s A' s' ps s'')
  then obtain l where l: "log s'' = log s' @ l" "log_ordered A' ps l" by blast
  from abs_Cons.hyps(1) show ?case
  proof (cases rule: step_specE)
    case (hit R)
    then show ?thesis using l by (intro exI [of _ "MemoryState R # l"]) simp
  next
    case (fill R)
    then show ?thesis using l by (intro exI [of _ "MemoryState R # l"]) auto
  next
    case (evict R v)
    then show ?thesis using l
      by (intro exI [of _ "Replaced v p # MemoryState R # l"]) auto
  qed
qed

lemma abs_run_single_frame:
  "abs_run fr ps A s s' \<Longrightarrow> fr = 1 \<Longrightarrow> A = set_option prev \<Longrightarrow>
     page_faults s' = page_faults s + single_frame_faults prev ps"
proof (induction arbitrary: prev rule: abs_run.induct)
  case (abs_Nil A s)
  then show ?case by simp
next
  case (abs_Cons p A s A' s' ps s'')
  from abs_Cons.hyps(1) show ?case
  proof (cases rule: step_specE)
    case (hit R)
    then have "prev = Some p" using abs_Cons.prems by (cases prev) auto
    then show ?thesis using hit abs_Cons.IH [of "Some p"] abs_Cons.prems by simp
  next
    case (fill R)
    then have "prev = None" using abs_Cons.prems by (cases prev) auto
    then show ?thesis using fill abs_Cons.IH [of "Some p"] abs_Cons.prems by simp
  next
    case (evict R v)
    then obtain q where "prev = Some q" "q \<noteq> p" "v = q"
      using abs_Cons.prems by (cases prev) auto
    then show ?thesis using evict abs_Cons.IH [of "Some p"] abs_Cons.prems by auto
  qed
qed

lemma abs_run_no_eviction:
  "abs_run fr ps A s s' \<Longrightarrow> finite A \<Longrightarrow> int (card (A \<union> set ps)) \<le> fr \<Longrightarrow>
     page_faults s' = page_faults s + card (set ps - A) \<and>
     (\<exists>l. log s' = log s @ l \<and> filter is_replacement l = [])"
proof (induction rule: abs_run.induct)
  case (abs_Nil A s)
  then show ?case by simp
next
  case (abs_Cons p A s A' s' ps s'')
  from abs_Cons.hyps(1) show ?case
  proof (cases rule: step_specE)
    case (hit R)
    have "set (p # ps) - A = set ps - A" using hit by auto
    moreover have "A \<union> set (p # ps) = A \<union> set ps" using hit by auto
    ultimately show ?thesis using hit abs_Cons.IH abs_Cons.prems by auto
  next
    case (fill R)
    have eq: "set (p # ps) - A = insert p (set ps - insert p A)" using fill by auto
    have "card (set (p # ps) - A) = Suc (card (set ps - insert p A))"
      unfolding eq by (rule card_insert_disjoint) auto
    moreover have "A \<union> set (p # ps) = insert p A \<union> set ps" by auto
    ultimately show ?thesis using fill abs_Cons.IH abs_Cons.prems by auto
  next
    case (evict R v)
    have "card A < card (insert p A)" using evict abs_Cons.prems by simp
    also have "\<dots> \<le> card (A \<union> set (p # ps))"
      using abs_Cons.prems by (intro card_mono) auto
    finally have False using evict abs_Cons.prems by simp
    then show ?thesis ..
  qed
qed

lemma abs_run_sizes:
  "abs_run fr ps A s s' \<Longrightarrow> finite seen \<Longrightarrow> A \<subseteq> seen \<Longrightarrow>
     int (card A) = min fr (int (card seen)) \<Longrightarrow>
     \<exists>l. log s' = log s @ l \<and> sizes_ok fr seen ps (snapshots l)"
proof (induction arbitrary: seen rule: abs_run.induct)
  case (abs_Nil A s)
  then show ?case by simp
next
  case (abs_Cons p A s A' s' ps s'')
  have fA: "finite A" using abs_Cons.prems by (auto intro: finite_subset)
  from abs_Cons.hyps(1) show ?case
  proof (cases rule: step_specE)
    case (hit R)
    have ins: "insert p seen = seen" using hit abs_Cons.prems by auto
    have "finite (insert p seen)" "A' \<subseteq> insert p seen"
      "int (card A') = min fr (int (card (insert p seen)))"
      using hit abs_Cons.prems by (auto simp: ins)
    from abs_Cons.IH [OF this] obtain l where
      l: "log s'' = log s' @ l" "sizes_ok fr (insert p seen) ps (snapshots l)" by blast
    have "int (length R) = min fr (int (card (insert p seen)))"
      using hit abs_Cons.prems distinct_card [of R] by (simp add: ins)
    then show ?thesis using l hit
      by (intro exI [of _ "MemoryState R # l"]) simp
  next
    case (fill R)
    have "card A = card seen" using fill abs_Cons.prems by auto
    then have As: "A = seen" using abs_Cons.prems by (simp add: card_subset_eq)
    have cA: "card A' = Suc (card seen)" using fill fA As by simp
    have "finite (insert p seen)" "A' \<subseteq> insert p seen"
      "int (card A') = min fr (int (card (insert p seen)))"
      using fill abs_Cons.prems As by auto
    from abs_Cons.IH [OF this] obtain l where
      l: "log s'' = log s' @ l" "sizes_ok fr (insert p seen) ps (snapshots l)" by blast
    have "int (length R) = min fr (int (card (insert p seen)))"
      using fill abs_Cons.prems As distinct_card [of R] by auto
    then show ?thesis using l fill
      by (intro exI [of _ "MemoryState R # l"]) simp
  next
    case (evict R v)
    have cA: "int (card A) = fr" using evict abs_Cons.prems by auto
    have "0 < card A" using evict fA by (auto simp: card_gt_0_iff)
    moreover have "card A' = Suc (card A - 1)" using evict fA by simp
    ultimately have cA': "card A' = card A" by linarith
    have "card seen \<le> card (insert p seen)" using abs_Cons.prems
      by (intro card_mono) auto
    then have mn: "min fr (int (card (insert p seen))) = fr"
      using cA abs_Cons.prems by auto
    have "finite (insert p seen)" "A' \<subseteq> insert p seen"
      "int (card A') = min fr (int (card (insert p seen)))"
      using evict abs_Cons.prems cA cA' mn by auto
    from abs_Cons.IH [OF this] obtain l where
      l: "log s'' = log s' @ l" "sizes_ok fr (insert p seen) ps (snapshots l)" by blast
    have "int (length R) = min fr (int (card (insert p seen)))"
      using evict cA cA' mn distinct_card [of R] by simp
    then show ?thesis using l evict
      by (intro exI [of _ "Replaced v p # MemoryState R # l"]) simp
  qed
qed

lemma sizes_ok_nth:
  "sizes_ok fr seen ps Rs \<Longrightarrow>
     length Rs = length ps \<and>
     (\<forall>k<length ps. distinct (Rs ! k) \<and>
        int (length (Rs ! k)) = min fr (int (card (seen \<union> set (take (Suc k) ps)))))"
proof (induction fr seen ps Rs rule: sizes_ok.induct)
  case (1 fr seen Rs)
  then show ?case by simp
next
  case (2 fr seen p ps)
  then show ?case by simp
next
  case (3 fr seen p ps R Rs)
  then have ih: "length Rs = length ps"
    "\<And>k. k < length ps \<Longrightarrow> distinct (Rs ! k) \<and>
        int (length (Rs ! k)) = min fr (int (card (insert p seen \<union> set (take (Suc k) ps))))"
    by auto
  show ?case
  proof (intro conjI allI impI)
    show "length (R # Rs) = length (p # ps)" using ih by simp
  next
    fix k assume "k < length (p # ps)"
    then show "distinct ((R # Rs) ! k)" using 3 ih by (cases k) auto
  next
    fix k assume k: "k < length (p # ps)"
    show "int (length ((R # Rs) ! k)) =
        min fr (int (card (seen \<union> set (take (Suc k) (p # ps)))))"
    proof (cases k)
      case 0
      then show ?thesis using 3 by simp
    next
      case (Suc j)
      then show ?thesis using k ih(2) [of j] by simp
    qed
  qed
qed

subsection \<open>Runs from the initial state, and evaluation of single steps\<close>

lemma abs_run_total:
  assumes "abs_run fr refs {} (reset_metrics sim) r"
  shows "page_hits r + page_faults r = length refs"
  using abs_run_counts [OF assms] by (simp add: reset_metrics_def)

lemma abs_run_sizes_bounded:
  assumes "abs_run fr refs {} (reset_metrics sim) r"
  shows "sizes_bounded fr refs (log r)"
proof -
  show ?thesis
  proof (cases "0 \<le> fr")
    case True
    then have "int (card ({}::int set)) = min fr (int (card ({}::int set)))" by simp
    from abs_run_sizes [OF assms _ _ this]
    have ok: "sizes_ok fr {} refs (snapshots (log r))" by (simp add: reset_metrics_def)
    from sizes_ok_nth [OF ok] show ?thesis unfolding sizes_bounded_def by auto
  next
    case False
    have "refs = []" using assms
    proof (cases rule: abs_run.cases)
      case abs_Nil
      then show ?thesis by simp
    next
      case (abs_Cons p A' s' ps)
      from abs_Cons(2) show ?thesis using False
        by (cases rule: step_specE) auto
    qed
    then have "r = reset_metrics sim" using assms by (auto elim: abs_run.cases)
    then show ?thesis using \<open>refs = []\<close>
      by (simp add: sizes_bounded_def reset_metrics_def)
  qed
qed

lemma abs_run_log_ordered_total:
  assumes "abs_run fr refs {} (reset_metrics sim) r"
  shows "log_ordered {} refs (log r)"
  using abs_run_log_ordered [OF assms] by (simp add: reset_metrics_def)

lemma abs_run_single_frame_total:
  assumes "abs_run 1 refs {} (reset_metrics sim) r"
  shows "page_faults r = single_frame_faults None refs"
  using abs_run_single_frame [OF assms, of None] by (simp add: reset_metrics_def)

lemma abs_run_no_eviction_total:
  assumes "abs_run fr refs {} (reset_metrics sim) r" and "int (card (set refs)) \<le> fr"
  shows "page_faults r = card (set refs) \<and> filter is_replacement (log r) = []"
  using abs_run_no_eviction [OF assms(1)] assms(2) by (auto simp: reset_metrics_def)

lemma valid_order_Nil: "valid_order iter \<Longrightarrow> iter i [] = []"
  unfolding valid_order_def using distinct.simps(1) set_empty by metis

lemma valid_order_set: "valid_order iter \<Longrightarrow> distinct c \<Longrightarrow> set (iter i c) = set c"
  unfolding valid_order_def by blast

lemma foldl_max_ge_start:
  fixes key :: "'a \<Rightarrow> 'k::linorder"
  shows "key b \<le> key (foldl (\<lambda>best y. if key best < key y then y else best) b xs)"
proof (induction xs arbitrary: b)
  case Nil
  then show ?case by simp
next
  case (Cons a xs)
  have "key b \<le> key (if key b < key a then a else b)" by auto
  also have "\<dots> \<le> key (foldl (\<lambda>best y. if key best < key y then y else best)
                          (if key b < key a then a else b) xs)"
    by (rule Cons.IH)
  finally show ?case by simp
qed

lemma foldl_max_ge_mem:
  fixes key :: "'a \<Rightarrow> 'k::linorder"
  shows "z \<in> set xs \<Longrightarrow>
    key z \<le> key (foldl (\<lambda>best y. if key best < key y then y else best) x xs)"
proof (induction xs arbitrary: x)
  case Nil
  then show ?case by simp
next
  case (Cons a xs)
  show ?case
  proof (cases "z = a")
    case True
    have "key a \<le> key (if key x < key a then a else x)" by auto
    also have "\<dots> \<le> key (foldl (\<lambda>best y. if key best < key y then y else best)
                            (if key x < key a then a else x) xs)"
      by (rule foldl_max_ge_start)
    finally show ?thesis using True by simp
  next
    case False
    then have "z \<in> set xs" using Cons.prems by simp
    from Cons.IH [OF this] show ?thesis by simp
  qed
qed

lemma py_max_by_unique:
  fixes key :: "'a \<Rightarrow> 'k::linorder"
  assumes "m \<in> set xs" and "\<forall>y\<in>set xs. y \<noteq> m \<longrightarrow> key y < key m"
  shows "py_max_by key xs = Inr m"
proof -
  obtain x ys where xs: "xs = x # ys" using assms(1) by (cases xs) auto
  let ?r = "foldl (\<lambda>best y. if key best < key y then y else best) x ys"
  have mem: "?r \<in> set xs" unfolding xs by (rule foldl_max_in)
  have "key m \<le> key ?r"
    using assms(1) foldl_max_ge_start [of key x ys] foldl_max_ge_mem [of m ys key x]
    unfolding xs by auto
  then have "?r = m" using assms(2) mem by (auto simp: not_less [symmetric])
  then show ?thesis unfolding xs by simp
qed

lemma py_max_by_iter_unique:
  assumes "valid_order iter" and "distinct c" and "m \<in> set c"
    and "\<forall>y\<in>set c. y \<noteq> m \<longrightarrow> key y < key m"
  shows "py_max_by key (iter i c) = Inr m"
proof -
  have "set (iter i c) = set c" using assms(1,2) unfolding valid_order_def by blast
  then show ?thesis using assms(3,4) by (intro py_max_by_unique) auto
qed

lemma optimal_step_hit:
  assumes "p \<in> set c" and "counters s = (fr, refs, f, h)"
  shows "\<exists>s'. optimal_step iter (c, s) (i, p) = Inr (c, s') \<and>
           counters s' = (fr, refs, f, h + 1)"
  using assms by (simp add: optimal_step_def log_state_def counters_def)

lemma optimal_step_fill:
  assumes "p \<notin> set c" and "counters s = (fr, refs, f, h)" and "int (length c) < fr"
  shows "\<exists>s'. optimal_step iter (c, s) (i, p) = Inr (c @ [p], s') \<and>
           counters s' = (fr, refs, f + 1, h)"
  using assms by (simp add: optimal_step_def log_state_def counters_def Let_def)

lemma optimal_step_evict:
  assumes "p \<notin> set c" and "counters s = (fr, refs, f, h)" and "fr \<le> int (length c)"
    and "py_max_by (future_index (drop (i + 1) refs)) (iter i c) = Inr v"
  shows "\<exists>s'. optimal_step iter (c, s) (i, p) = Inr (removeAll v c @ [p], s') \<and>
           counters s' = (fr, refs, f + 1, h)"
  using assms by (simp add: optimal_step_def log_state_def counters_def Let_def)

lemma for_each_step:
  "body st x = Inr st' \<Longrightarrow> for_each body (x # xs) st = for_each body xs st'"
  by simp

lemma enumerate_example:
  "List.enumerate 0 [1, 2, 3, 4, 1, 2, 5, 1, 2, 3 :: int] =
     [(0, 1), (1, 2), (2, 3), (3, 4), (4, 1), (5, 2), (6, 5), (7, 1), (8, 2), (9, 3)]"
  by (simp add: eval_nat_numeral)

lemma belady_first_victim:
  assumes "valid_order iter"
  shows "py_max_by (future_index [1, 2, 5, 1, 2, 3]) (iter i [1, 2, 3]) = Inr 3"
  by (rule py_max_by_iter_unique [OF assms]) (simp_all add: future_index_def)

lemma belady_second_victim:
  assumes "valid_order iter"
  shows "py_max_by (future_index [1, 2, 3]) (iter i [1, 2, 4]) = Inr 4"
  by (rule py_max_by_iter_unique [OF assms]) (simp_all add: future_index_def)

lemma belady_last_victim:
  assumes "valid_order iter"
  shows "\<exists>v. py_max_by key (iter i [1, 2, 5]) = Inr v"
proof -
  have "set (iter i [1, 2, 5]) = set [1, 2, 5]"
    by (rule valid_order_set [OF assms]) simp
  then have "iter i [1, 2, 5] \<noteq> []" by auto
  from py_max_by_in [OF this] show ?thesis by blast
qed

lemma count_list_snoc:
  "count_list (seen @ [p]) = (count_list seen)(p := count_list seen p + 1)"
  by (rule ext) simp


lemma lfu_step_hit:
  assumes "page \<in> fst ` set cache"
  shows "lfu_step (cache, count_list seen, self) page =
           Inr (cache, count_list (seen @ [page]),
                self\<lparr>page_hits := page_hits self + 1,
                      log := log self @ [MemoryState (map fst cache)]\<rparr>)"
  using assms unfolding count_list_snoc
  by (simp add: lfu_step_def Let_def log_state_def del: fun_upd_apply)

lemma lfu_step_fill:
  assumes "page \<notin> fst ` set cache" and "int (length cache) < frames self"
  shows "lfu_step (cache, count_list seen, self) page =
           Inr (cache @ [(page, length (log self))], count_list (seen @ [page]),
                self\<lparr>page_faults := page_faults self + 1,
                      log := log self @ [MemoryState (map fst cache @ [page])]\<rparr>)"
  using assms unfolding count_list_snoc
  by (simp add: lfu_step_def Let_def log_state_def del: fun_upd_apply)

lemma lfu_step_evict:
  assumes "page \<notin> fst ` set cache" and "frames self \<le> int (length cache)"
    and "cache \<noteq> []" and "distinct (map snd cache)"
  shows "\<exists>v. least_frequent (seen @ [page]) cache v \<and>
           lfu_step (cache, count_list seen, self) page =
             Inr (filter (\<lambda>(k, t). k \<noteq> v) cache @ [(page, length (log self) + 1)],
                  count_list (seen @ [page]),
                  self\<lparr>page_faults := page_faults self + 1,
                        log := log self @
                          [Replaced v page,
                           MemoryState (map fst (filter (\<lambda>(k, t). k \<noteq> v) cache) @ [page])]\<rparr>)"
proof -
  define f where "f = count_list (seen @ [page])"
  have f_upd: "(count_list seen)(page := Suc (count_list seen page)) = f"
    unfolding f_def using count_list_snoc [of seen page] by simp
  from py_min_by_spec [OF assms(3), of "\<lambda>(k, tag). (f k, tag)"]
  obtain v tv where m: "(v, tv) \<in> set cache"
    and pm: "py_min_by (\<lambda>(k, tag). (f k, tag)) cache = Inr (v, tv)"
    and le: "\<forall>z\<in>set cache. (case (v, tv) of (k, tag) \<Rightarrow> (f k, tag))
               \<le> (case z of (k, tag) \<Rightarrow> (f k, tag))"
    by (metis surj_pair)
  have inj: "inj_on snd (set cache)" using assms(4) by (simp add: distinct_map)
  have strict: "f v < f k \<or> (f v = f k \<and> tv < t)"
    if kt: "(k, t) \<in> set cache" and ne: "k \<noteq> v" for k t
  proof -
    have "(f v, tv) \<le> (f k, t)" using le kt by auto
    then have "f v < f k \<or> (f v = f k \<and> tv \<le> t)"
      by (auto simp: less_eq_prod_simp)
    moreover have "tv \<noteq> t"
    proof
      assume "tv = t"
      then have "snd (v, tv) = snd (k, t)" by simp
      from inj_onD [OF inj this m kt] have "(v, tv) = (k, t)" .
      then show False using ne by simp
    qed
    ultimately show ?thesis by auto
  qed
  have "\<forall>(k, t) \<in> set cache. k \<noteq> v \<longrightarrow> f v < f k \<or> (f v = f k \<and> tv < t)"
    using strict by blast
  then have lf: "least_frequent (seen @ [page]) cache v"
    unfolding least_frequent_def f_def [symmetric] using m
    by (intro bexI [of _ "(v, tv)"]) simp_all
  have "lfu_step (cache, count_list seen, self) page =
             Inr (filter (\<lambda>(k, t). k \<noteq> v) cache @ [(page, length (log self) + 1)],
                  f,
                  self\<lparr>page_faults := page_faults self + 1,
                        log := log self @
                          [Replaced v page,
                           MemoryState (map fst (filter (\<lambda>(k, t). k \<noteq> v) cache) @ [page])]\<rparr>)"
    using assms(1,2) pm
    by (simp add: lfu_step_def Let_def log_state_def f_upd del: fun_upd_apply)
  with lf show ?thesis unfolding f_def by blast
qed


lemma tags_filter_sorted:
  "sorted_wrt (<) (map snd cache) \<Longrightarrow>
     sorted_wrt (<) (map snd (filter (\<lambda>(k, t). k \<noteq> v) cache))"
  by (simp add: sorted_wrt_map sorted_wrt_filter)

lemma lfu_loop_follows_spec:
  assumes fr: "1 \<le> fr"
  shows "frames s = fr \<Longrightarrow> distinct (map fst cache) \<Longrightarrow>
     sorted_wrt (<) (map snd cache) \<Longrightarrow> (\<forall>t\<in>set (map snd cache). t < length (log s)) \<Longrightarrow>
     \<exists>cache' s' l.
       for_each lfu_step ps (cache, count_list seen, s) =
         Inr (cache', count_list (seen @ ps), s') \<and>
       log s' = log s @ l \<and> lfu_spec fr seen cache (length (log s)) ps l cache'"
proof (induction ps arbitrary: seen cache s)
  case Nil
  then show ?case by simp
next
  case (Cons p ps)
  note fs = Cons.prems(1) and dk = Cons.prems(2) and st = Cons.prems(3) and tl = Cons.prems(4)
  show ?case
  proof (cases "p \<in> fst ` set cache")
    case True
    let ?s1 = "s\<lparr>page_hits := page_hits s + 1, log := log s @ [MemoryState (map fst cache)]\<rparr>"
    have step: "lfu_step (cache, count_list seen, s) p =
        Inr (cache, count_list (seen @ [p]), ?s1)"
      by (rule lfu_step_hit [OF True])
    have "frames ?s1 = fr" "\<forall>t\<in>set (map snd cache). t < length (log ?s1)"
      using fs tl by auto
    from Cons.IH [OF this(1) dk st this(2), of "seen @ [p]"]
    obtain cache' s' l where
      run: "for_each lfu_step ps (cache, count_list (seen @ [p]), ?s1) =
              Inr (cache', count_list ((seen @ [p]) @ ps), s')"
      and lg: "log s' = log ?s1 @ l"
      and sp: "lfu_spec fr (seen @ [p]) cache (length (log ?s1)) ps l cache'"
      by blast
    have "for_each lfu_step (p # ps) (cache, count_list seen, s) =
        Inr (cache', count_list (seen @ p # ps), s')"
      using step run by simp
    moreover have "log s' = log s @ (MemoryState (map fst cache) # l)" using lg by simp
    moreover have "lfu_spec fr seen cache (length (log s)) (p # ps)
        (MemoryState (map fst cache) # l) cache'"
      using True sp by simp
    ultimately show ?thesis by blast
  next
    case False
    show ?thesis
    proof (cases "int (length cache) < fr")
      case nf: True
      let ?c1 = "cache @ [(p, length (log s))]"
      let ?s1 = "s\<lparr>page_faults := page_faults s + 1,
                    log := log s @ [MemoryState (map fst cache @ [p])]\<rparr>"
      have step: "lfu_step (cache, count_list seen, s) p =
          Inr (?c1, count_list (seen @ [p]), ?s1)"
        using nf fs by (intro lfu_step_fill [OF False]) simp
      have pre: "frames ?s1 = fr" "distinct (map fst ?c1)" "sorted_wrt (<) (map snd ?c1)"
        "\<forall>t\<in>set (map snd ?c1). t < length (log ?s1)"
        using fs dk st tl False by (auto simp: sorted_wrt_append)
      from Cons.IH [OF pre, of "seen @ [p]"]
      obtain cache' s' l where
        run: "for_each lfu_step ps (?c1, count_list (seen @ [p]), ?s1) =
                Inr (cache', count_list ((seen @ [p]) @ ps), s')"
        and lg: "log s' = log ?s1 @ l"
        and sp: "lfu_spec fr (seen @ [p]) ?c1 (length (log ?s1)) ps l cache'"
        by blast
      have "for_each lfu_step (p # ps) (cache, count_list seen, s) =
          Inr (cache', count_list (seen @ p # ps), s')"
        using step run by simp
      moreover have "log s' = log s @ (MemoryState (map fst cache @ [p]) # l)"
        using lg by simp
      moreover have "lfu_spec fr seen cache (length (log s)) (p # ps)
          (MemoryState (map fst cache @ [p]) # l) cache'"
        using False nf sp by simp
      ultimately show ?thesis by blast
    next
      case full: False
      then have ne: "cache \<noteq> []" using fr by auto
      have dt: "distinct (map snd cache)" using st by (simp add: strict_sorted_iff)
      from lfu_step_evict [OF False _ ne dt, of s seen] full fs
      obtain v where lf: "least_frequent (seen @ [p]) cache v"
        and step: "lfu_step (cache, count_list seen, s) p =
             Inr (filter (\<lambda>(k, t). k \<noteq> v) cache @ [(p, length (log s) + 1)],
                  count_list (seen @ [p]),
                  s\<lparr>page_faults := page_faults s + 1,
                        log := log s @
                          [Replaced v p,
                           MemoryState (map fst (filter (\<lambda>(k, t). k \<noteq> v) cache) @ [p])]\<rparr>)"
        by auto
      let ?c0 = "filter (\<lambda>(k, t). k \<noteq> v) cache"
      let ?c1 = "?c0 @ [(p, length (log s) + 1)]"
      let ?s1 = "s\<lparr>page_faults := page_faults s + 1,
                    log := log s @ [Replaced v p, MemoryState (map fst ?c0 @ [p])]\<rparr>"
      have sub: "set ?c0 \<subseteq> set cache" by auto
      have "frames ?s1 = fr" using fs by simp
      moreover have "distinct (map fst ?c1)"
        using dk False sub by (auto simp: distinct_map_filter)
      moreover have "sorted_wrt (<) (map snd ?c1)"
        using tags_filter_sorted [OF st, of v] tl sub
        by (auto simp: sorted_wrt_append)
      moreover have "\<forall>t\<in>set (map snd ?c1). t < length (log ?s1)"
        using tl sub by auto
      ultimately obtain cache' s' l where
        run: "for_each lfu_step ps (?c1, count_list (seen @ [p]), ?s1) =
                Inr (cache', count_list ((seen @ [p]) @ ps), s')"
        and lg: "log s' = log ?s1 @ l"
        and sp: "lfu_spec fr (seen @ [p]) ?c1 (length (log ?s1)) ps l cache'"
        using Cons.IH [of ?s1 ?c1 "seen @ [p]"] by blast
      have "for_each lfu_step (p # ps) (cache, count_list seen, s) =
          Inr (cache', count_list (seen @ p # ps), s')"
        using step run by simp
      moreover have "log s' = log s @ (Replaced v p # MemoryState (map fst ?c0 @ [p]) # l)"
        using lg by simp
      moreover have "lfu_spec fr seen cache (length (log s)) (p # ps)
          (Replaced v p # MemoryState (map fst ?c0 @ [p]) # l) cache'"
        using False full lf sp by simp
      ultimately show ?thesis by blast
    qed
  qed
qed

section \<open>Properties of the four policies\<close>

text \<open>
  C1. For a frame count of at least 1 and any reference sequence, each of \<open>fifo\<close>,
  \<open>lru\<close>, \<open>lfu\<close> and \<open>optimal\<close> returns, and in its result the hit count plus the
  fault count is the length of the reference sequence. (For \<open>optimal\<close>: whatever order
  the set is iterated in.)
\<close>

theorem hits_plus_faults_is_length:
  assumes "1 \<le> frames sim" and "valid_order iter"
  shows "(\<exists>r. fifo sim = Inr r \<and>
              page_hits r + page_faults r = length (reference_string sim)) \<and>
         (\<exists>r. lru sim = Inr r \<and>
              page_hits r + page_faults r = length (reference_string sim)) \<and>
         (\<exists>r. lfu sim = Inr r \<and>
              page_hits r + page_faults r = length (reference_string sim)) \<and>
         (\<exists>r. optimal iter sim = Inr r \<and>
              page_hits r + page_faults r = length (reference_string sim))"
  using fifo_abs_run [OF assms(1)] lru_abs_run [OF assms(1)] lfu_abs_run [OF assms(1)]
    optimal_abs_run [OF assms] abs_run_total [of "frames sim" "reference_string sim" sim]
  by blast

theorem hits_plus_faults_is_length_witness:
  "1 \<le> frames (init 3 [1, 2, 3, 4, 1, 2, 5, 1, 2, 3]) \<and> valid_order ascending_order \<and>
   (\<exists>r. fifo (init 3 [1, 2, 3, 4, 1, 2, 5, 1, 2, 3]) = Inr r \<and>
        page_hits r + page_faults r = 10) \<and>
   (\<exists>r. lru (init 3 [1, 2, 3, 4, 1, 2, 5, 1, 2, 3]) = Inr r \<and>
        page_hits r + page_faults r = 10) \<and>
   (\<exists>r. lfu (init 3 [1, 2, 3, 4, 1, 2, 5, 1, 2, 3]) = Inr r \<and>
        page_hits r + page_faults r = 10) \<and>
   (\<exists>r. optimal ascending_order (init 3 [1, 2, 3, 4, 1, 2, 5, 1, 2, 3]) = Inr r \<and>
        page_hits r + page_faults r = 10)"
proof -
  have h: "1 \<le> frames (init 3 [1, 2, 3, 4, 1, 2, 5, 1, 2, 3])" by (simp add: init_def)
  have v: "valid_order ascending_order"
    by (simp add: valid_order_def ascending_order_def)
  have n: "length (reference_string (init 3 [1, 2, 3, 4, 1, 2, 5, 1, 2, 3])) = 10"
    by (simp add: init_def)
  show ?thesis using hits_plus_faults_is_length [OF h v] h v unfolding n by simp
qed

text \<open>
  C2. For a frame count of at least 1, the loop of \<open>lfu\<close> runs to its end and \<open>lfu\<close>
  returns its simulator. The frequency counter it ends with gives, for every page, the
  number of references made to it, hits and faults alike. The log follows \<open>lfu_spec\<close>
  from the empty state: at every fault with the frame set full, the page named in the
  replacement entry is the resident page whose frequency, the current reference counted,
  is smallest, ties broken by the smallest insertion tag; and the tags the resident pages
  end with are the lengths the log had when each page was inserted.
\<close>

theorem lfu_evicts_least_frequent_oldest:
  assumes "1 \<le> frames sim"
  shows "\<exists>cache frequency r.
           for_each lfu_step (reference_string sim) ([], (\<lambda>k. 0), reset_metrics sim) =
             Inr (cache, frequency, r) \<and>
           lfu sim = Inr r \<and>
           frequency = count_list (reference_string sim) \<and>
           lfu_spec (frames sim) [] [] 0 (reference_string sim) (log r) cache"
proof -
  have z: "(\<lambda>k::int. 0::nat) = count_list []" by (rule ext) simp
  from lfu_loop_follows_spec [OF assms, of "reset_metrics sim" "[]" "reference_string sim" "[]"]
  obtain cache' s' l where
    run: "for_each lfu_step (reference_string sim) ([], count_list [], reset_metrics sim) =
            Inr (cache', count_list (reference_string sim), s')"
    and lg: "log s' = log (reset_metrics sim) @ l"
    and sp: "lfu_spec (frames sim) [] [] (length (log (reset_metrics sim)))
               (reference_string sim) l cache'"
    by (auto simp: reset_metrics_def)
  have "lfu sim = Inr s'" using run unfolding lfu_def z by simp
  moreover have "log s' = l" using lg by (simp add: reset_metrics_def)
  ultimately show ?thesis using run sp unfolding z by (auto simp: reset_metrics_def)
qed

theorem lfu_evicts_least_frequent_oldest_witness:
  "1 \<le> frames (init 2 [1, 2, 3, 1, 2, 4, 1]) \<and>
   lfu (init 2 [1, 2, 3, 1, 2, 4, 1]) =
     Inr \<lparr>frames = 2, reference_string = [1, 2, 3, 1, 2, 4, 1],
          page_faults = 7, page_hits = 0,
          log = [MemoryState [1], MemoryState [1, 2], Replaced 1 3, MemoryState [2, 3],
                 Replaced 2 1, MemoryState [3, 1], Replaced 3 2, MemoryState [1, 2],
                 Replaced 1 4, MemoryState [2, 4], Replaced 4 1, MemoryState [2, 1]]\<rparr> \<and>
   lfu_spec 2 [] [] 0 [1, 2, 3, 1, 2, 4, 1]
     [MemoryState [1], MemoryState [1, 2], Replaced 1 3, MemoryState [2, 3],
      Replaced 2 1, MemoryState [3, 1], Replaced 3 2, MemoryState [1, 2],
      Replaced 1 4, MemoryState [2, 4], Replaced 4 1, MemoryState [2, 1]]
     [(2, 7), (1, 11)]"
proof -
  let ?L = "[1, 2, 3, 1, 2, 4, 1 :: int]"
  let ?R = "\<lparr>frames = 2, reference_string = ?L, page_faults = 7, page_hits = 0,
          log = [MemoryState [1], MemoryState [1, 2], Replaced 1 3, MemoryState [2, 3],
                 Replaced 2 1, MemoryState [3, 1], Replaced 3 2, MemoryState [1, 2],
                 Replaced 1 4, MemoryState [2, 4], Replaced 4 1, MemoryState [2, 1]]\<rparr>"
  have h: "1 \<le> frames (init 2 ?L)" by (simp add: init_def)
  have e: "frames (init 2 ?L) = 2" "reference_string (init 2 ?L) = ?L"
    by (simp_all add: init_def)
  from lfu_evicts_least_frequent_oldest [OF h]
  obtain cache frequency r where
    run: "for_each lfu_step ?L ([], (\<lambda>k. 0), reset_metrics (init 2 ?L)) =
            Inr (cache, frequency, r)"
    and res: "lfu (init 2 ?L) = Inr r"
    and sp: "lfu_spec 2 [] [] 0 ?L (log r) cache"
    unfolding e by blast
  have ev: "map_sum id (\<lambda>(c, f, s). (c, s))
      (for_each lfu_step ?L ([], (\<lambda>k. 0), reset_metrics (init 2 ?L))) =
        Inr ([(2, 7), (1, 11)], ?R)"
    by (simp add: lfu_step_def Let_def log_state_def reset_metrics_def init_def)
  have "cache = [(2, 7), (1, 11)]" "r = ?R" using run ev by simp_all
  then show ?thesis using h res sp by simp
qed

text \<open>
  C3, as the code has it. On the reference sequence \<open>[1,2,3,4,1,2,5,1,2,3]\<close> with three
  frames \<open>optimal\<close> returns with 6 faults and 4 hits, whatever order the set is iterated
  in: pages 1, 2, 3 fault into free frames, 4 replaces 3 (next used farthest ahead), 5
  replaces 4 (never used again), and the final 3 replaces one of the three resident pages,
  none of which is used again.
\<close>

theorem optimal_belady_example:
  assumes vo: "valid_order iter"
  shows "\<exists>r. optimal iter (init 3 [1, 2, 3, 4, 1, 2, 5, 1, 2, 3]) = Inr r \<and>
              page_faults r = 6 \<and> page_hits r = 4"
proof -
  let ?L = "[1, 2, 3, 4, 1, 2, 5, 1, 2, 3 :: int]"
  define s0 where "s0 = reset_metrics (init 3 ?L)"
  have c0: "counters s0 = (3, ?L, 0, 0)"
    by (simp add: s0_def counters_def reset_metrics_def init_def)
  from optimal_step_fill [of 1 "[]" s0 3 ?L 0 0 iter 0] c0
  obtain s1 where t1: "optimal_step iter ([], s0) (0, 1) = Inr ([1], s1)"
    and c1: "counters s1 = (3, ?L, 1, 0)" by auto
  from optimal_step_fill [of 2 "[1]" s1 3 ?L 1 0 iter 1] c1
  obtain s2 where t2: "optimal_step iter ([1], s1) (1, 2) = Inr ([1, 2], s2)"
    and c2: "counters s2 = (3, ?L, 2, 0)" by auto
  from optimal_step_fill [of 3 "[1, 2]" s2 3 ?L 2 0 iter 2] c2
  obtain s3 where t3: "optimal_step iter ([1, 2], s2) (2, 3) = Inr ([1, 2, 3], s3)"
    and c3: "counters s3 = (3, ?L, 3, 0)" by auto
  have m4: "py_max_by (future_index (drop (3 + 1) ?L)) (iter 3 [1, 2, 3]) = Inr 3"
    using belady_first_victim [OF vo, of 3] by simp
  from optimal_step_evict [of 4 "[1, 2, 3]" s3 3 ?L 3 0 3 iter 3, OF _ c3 _ m4]
  obtain s4 where t4: "optimal_step iter ([1, 2, 3], s3) (3, 4) = Inr ([1, 2, 4], s4)"
    and c4: "counters s4 = (3, ?L, 4, 0)" by auto
  from optimal_step_hit [of 1 "[1, 2, 4]" s4 3 ?L 4 0 iter 4] c4
  obtain s5 where t5: "optimal_step iter ([1, 2, 4], s4) (4, 1) = Inr ([1, 2, 4], s5)"
    and c5: "counters s5 = (3, ?L, 4, 1)" by auto
  from optimal_step_hit [of 2 "[1, 2, 4]" s5 3 ?L 4 1 iter 5] c5
  obtain s6 where t6: "optimal_step iter ([1, 2, 4], s5) (5, 2) = Inr ([1, 2, 4], s6)"
    and c6: "counters s6 = (3, ?L, 4, 2)" by auto
  have m7: "py_max_by (future_index (drop (6 + 1) ?L)) (iter 6 [1, 2, 4]) = Inr 4"
    using belady_second_victim [OF vo, of 6] by simp
  from optimal_step_evict [of 5 "[1, 2, 4]" s6 3 ?L 4 2 6 iter 4, OF _ c6 _ m7]
  obtain s7 where t7: "optimal_step iter ([1, 2, 4], s6) (6, 5) = Inr ([1, 2, 5], s7)"
    and c7: "counters s7 = (3, ?L, 5, 2)" by auto
  from optimal_step_hit [of 1 "[1, 2, 5]" s7 3 ?L 5 2 iter 7] c7
  obtain s8 where t8: "optimal_step iter ([1, 2, 5], s7) (7, 1) = Inr ([1, 2, 5], s8)"
    and c8: "counters s8 = (3, ?L, 5, 3)" by auto
  from optimal_step_hit [of 2 "[1, 2, 5]" s8 3 ?L 5 3 iter 8] c8
  obtain s9 where t9: "optimal_step iter ([1, 2, 5], s8) (8, 2) = Inr ([1, 2, 5], s9)"
    and c9: "counters s9 = (3, ?L, 5, 4)" by auto
  from belady_last_victim [OF vo, of "future_index (drop (9 + 1) ?L)" 9]
  obtain v where m10: "py_max_by (future_index (drop (9 + 1) ?L)) (iter 9 [1, 2, 5]) = Inr v"
    by blast
  from optimal_step_evict [of 3 "[1, 2, 5]" s9 3 ?L 5 4 9 iter v, OF _ c9 _ m10]
  obtain s10 where
    t10: "optimal_step iter ([1, 2, 5], s9) (9, 3) = Inr (removeAll v [1, 2, 5] @ [3], s10)"
    and c10: "counters s10 = (3, ?L, 6, 4)" by auto
  have "for_each (optimal_step iter) (List.enumerate 0 ?L) ([], s0) =
      Inr (removeAll v [1, 2, 5] @ [3], s10)"
    unfolding enumerate_example
    by (simp only: for_each_step [where body = "optimal_step iter", OF t1] for_each_step [where body = "optimal_step iter", OF t2] for_each_step [where body = "optimal_step iter", OF t3]
          for_each_step [where body = "optimal_step iter", OF t4] for_each_step [where body = "optimal_step iter", OF t5] for_each_step [where body = "optimal_step iter", OF t6]
          for_each_step [where body = "optimal_step iter", OF t7] for_each_step [where body = "optimal_step iter", OF t8] for_each_step [where body = "optimal_step iter", OF t9]
          for_each_step [where body = "optimal_step iter", OF t10] for_each.simps(1))
  then have "optimal iter (init 3 ?L) = Inr s10"
    by (simp add: optimal_def s0_def init_def)
  then show ?thesis using c10 by (simp add: counters_def)
qed

theorem optimal_belady_example_witness:
  "valid_order ascending_order \<and>
   (\<exists>r. optimal ascending_order (init 3 [1, 2, 3, 4, 1, 2, 5, 1, 2, 3]) = Inr r \<and>
        page_faults r = 6 \<and> page_hits r = 4)"
proof -
  have v: "valid_order ascending_order"
    by (simp add: valid_order_def ascending_order_def)
  show ?thesis using optimal_belady_example [OF v] v by simp
qed

text \<open>
  C3 as stated fails: with the set iterated in insertion order the run is the one below,
  and its fault count is 6, not 7.
\<close>

theorem optimal_seven_faults_counterexample:
  "optimal insertion_order (init 3 [1, 2, 3, 4, 1, 2, 5, 1, 2, 3]) =
     Inr \<lparr>frames = 3, reference_string = [1, 2, 3, 4, 1, 2, 5, 1, 2, 3],
          page_faults = 6, page_hits = 4,
          log = [MemoryState [1], MemoryState [1, 2], MemoryState [1, 2, 3],
                 Replaced 3 4, MemoryState [1, 2, 4], MemoryState [1, 2, 4],
                 MemoryState [1, 2, 4], Replaced 4 5, MemoryState [1, 2, 5],
                 MemoryState [1, 2, 5], MemoryState [1, 2, 5], Replaced 1 3,
                 MemoryState [2, 5, 3]]\<rparr> \<and>
   map_sum id page_faults (optimal insertion_order (init 3 [1, 2, 3, 4, 1, 2, 5, 1, 2, 3]))
     \<noteq> Inr 7"
  by (simp add: optimal_def init_def reset_metrics_def optimal_step_def Let_def
        log_state_def insertion_order_def future_index_def enumerate_example)

text \<open>
  C4, as the code has it. \<^verbatim>\<open>main\<close> does not validate the frame count. For every input
  with \<open>frames \<le> 0\<close> it invokes \<open>fifo\<close> on that frame count and ends there with an
  uncaught exception, without invoking any other policy: \<^verbatim>\<open>IndexError\<close>, raised inside
  \<open>fifo\<close>, when the reference sequence is not empty; \<^verbatim>\<open>ZeroDivisionError\<close>, raised by
  \<^verbatim>\<open>display_results\<close> after \<open>fifo\<close> has returned, when it is empty.
\<close>

theorem main_runs_fifo_on_nonpositive_frames:
  assumes "fr \<le> 0"
  shows "main iter fr refs =
           ([FIFO], Inl (if refs = [] then ZeroDivisionError else IndexError)) \<and>
         fifo (init fr refs) = (if refs = [] then Inr (init fr refs) else Inl IndexError)"
proof (cases refs)
  case Nil
  then show ?thesis
    by (simp add: main_def fifo_def init_def reset_metrics_def display_results_def
          true_div_percent_def)
next
  case (Cons p ps)
  have "fifo_step ([], reset_metrics (init fr refs)) p = Inl IndexError"
    using assms by (simp add: fifo_step_def init_def reset_metrics_def popleft_def)
  then have "fifo (init fr refs) = Inl IndexError"
    using Cons by (simp add: fifo_def init_def)
  then show ?thesis using Cons by (simp add: main_def)
qed

theorem main_runs_fifo_on_nonpositive_frames_witness:
  "(-2::int) \<le> 0 \<and>
   main ascending_order (-2) [4, 5] = ([FIFO], Inl IndexError) \<and>
   fifo (init (-2) [4, 5]) = Inl IndexError \<and>
   main ascending_order (-2) [] = ([FIFO], Inl ZeroDivisionError) \<and>
   fifo (init (-2) []) = Inr (init (-2) [])"
  using main_runs_fifo_on_nonpositive_frames [of "-2" ascending_order "[4, 5]"]
    main_runs_fifo_on_nonpositive_frames [of "-2" ascending_order "[]"]
  by simp

text \<open>
  C4 as stated fails: with zero frames and the reference sequence \<open>[1]\<close> the program
  invokes \<open>fifo\<close>, and the exception that ends it is the one \<open>fifo\<close> raises.
\<close>

theorem main_runs_fifo_on_zero_frames_counterexample:
  "fst (main insertion_order 0 [1]) = [FIFO] \<and>
   snd (main insertion_order 0 [1]) = Inl IndexError \<and>
   fifo (init 0 [1]) = Inl IndexError"
  by (simp add: main_def fifo_def fifo_step_def init_def reset_metrics_def popleft_def)

text \<open>
  C5. For a frame count of at least 1, any reference sequence and each policy, the run
  returns and its log holds one snapshot per reference; the snapshot that ends step \<open>k\<close>
  lists distinct pages, at most \<open>frames\<close> of them and at least the smaller of \<open>frames\<close>
  and the number of distinct pages among the first \<open>k + 1\<close> references. (The size is
  read where the code records it, at the end of each step.)
\<close>

theorem resident_set_size_bounds:
  assumes "1 \<le> frames sim" and "valid_order iter"
  shows "(\<exists>r. fifo sim = Inr r \<and>
              sizes_bounded (frames sim) (reference_string sim) (log r)) \<and>
         (\<exists>r. lru sim = Inr r \<and>
              sizes_bounded (frames sim) (reference_string sim) (log r)) \<and>
         (\<exists>r. lfu sim = Inr r \<and>
              sizes_bounded (frames sim) (reference_string sim) (log r)) \<and>
         (\<exists>r. optimal iter sim = Inr r \<and>
              sizes_bounded (frames sim) (reference_string sim) (log r))"
  using fifo_abs_run [OF assms(1)] lru_abs_run [OF assms(1)] lfu_abs_run [OF assms(1)]
    optimal_abs_run [OF assms]
    abs_run_sizes_bounded [of "frames sim" "reference_string sim" sim]
  by blast

theorem resident_set_size_bounds_witness:
  "1 \<le> frames (init 2 [7, 8, 7, 9, 8]) \<and> valid_order ascending_order \<and>
   (\<exists>r. fifo (init 2 [7, 8, 7, 9, 8]) = Inr r \<and> sizes_bounded 2 [7, 8, 7, 9, 8] (log r)) \<and>
   (\<exists>r. lru (init 2 [7, 8, 7, 9, 8]) = Inr r \<and> sizes_bounded 2 [7, 8, 7, 9, 8] (log r)) \<and>
   (\<exists>r. lfu (init 2 [7, 8, 7, 9, 8]) = Inr r \<and> sizes_bounded 2 [7, 8, 7, 9, 8] (log r)) \<and>
   (\<exists>r. optimal ascending_order (init 2 [7, 8, 7, 9, 8]) = Inr r \<and>
        sizes_bounded 2 [7, 8, 7, 9, 8] (log r))"
proof -
  have h: "1 \<le> frames (init 2 [7, 8, 7, 9, 8])" by (simp add: init_def)
  have v: "valid_order ascending_order"
    by (simp add: valid_order_def ascending_order_def)
  have e: "frames (init 2 [7, 8, 7, 9, 8]) = 2"
    "reference_string (init 2 [7, 8, 7, 9, 8]) = [7, 8, 7, 9, 8]"
    by (simp_all add: init_def)
  show ?thesis using resident_set_size_bounds [OF h v] h v unfolding e by simp
qed

text \<open>
  C6. For a frame count of at least 1 and each policy, the run returns and its log is, in
  order, one group of entries per reference: a group ends with exactly one snapshot, and
  a page leaves the resident set only in a group whose replacement entry, naming that
  page and the referenced page, stands directly before the snapshot.
\<close>

theorem log_is_ordered:
  assumes "1 \<le> frames sim" and "valid_order iter"
  shows "(\<exists>r. fifo sim = Inr r \<and> log_ordered {} (reference_string sim) (log r)) \<and>
         (\<exists>r. lru sim = Inr r \<and> log_ordered {} (reference_string sim) (log r)) \<and>
         (\<exists>r. lfu sim = Inr r \<and> log_ordered {} (reference_string sim) (log r)) \<and>
         (\<exists>r. optimal iter sim = Inr r \<and> log_ordered {} (reference_string sim) (log r))"
  using fifo_abs_run [OF assms(1)] lru_abs_run [OF assms(1)] lfu_abs_run [OF assms(1)]
    optimal_abs_run [OF assms]
    abs_run_log_ordered_total [of "frames sim" "reference_string sim" sim]
  by blast

theorem log_is_ordered_witness:
  "1 \<le> frames (init 2 [7, 8, 7, 9, 8]) \<and> valid_order insertion_order \<and>
   (\<exists>r. fifo (init 2 [7, 8, 7, 9, 8]) = Inr r \<and> log_ordered {} [7, 8, 7, 9, 8] (log r)) \<and>
   (\<exists>r. lru (init 2 [7, 8, 7, 9, 8]) = Inr r \<and> log_ordered {} [7, 8, 7, 9, 8] (log r)) \<and>
   (\<exists>r. lfu (init 2 [7, 8, 7, 9, 8]) = Inr r \<and> log_ordered {} [7, 8, 7, 9, 8] (log r)) \<and>
   (\<exists>r. optimal insertion_order (init 2 [7, 8, 7, 9, 8]) = Inr r \<and>
        log_ordered {} [7, 8, 7, 9, 8] (log r))"
proof -
  have h: "1 \<le> frames (init 2 [7, 8, 7, 9, 8])" by (simp add: init_def)
  have v: "valid_order insertion_order"
    by (simp add: valid_order_def insertion_order_def)
  have e: "reference_string (init 2 [7, 8, 7, 9, 8]) = [7, 8, 7, 9, 8]"
    by (simp add: init_def)
  show ?thesis using log_is_ordered [OF h v] h v unfolding e by simp
qed

text \<open>
  C7. With one frame, the four policies return and report the same number of faults on
  every reference sequence: the number of references that differ from the one before.
\<close>

theorem single_frame_same_faults:
  assumes "frames sim = 1" and "valid_order iter"
  shows "\<exists>a b c d. fifo sim = Inr a \<and> lru sim = Inr b \<and> lfu sim = Inr c \<and>
           optimal iter sim = Inr d \<and>
           page_faults a = page_faults b \<and> page_faults b = page_faults c \<and>
           page_faults c = page_faults d \<and>
           page_faults d = single_frame_faults None (reference_string sim)"
proof -
  have f: "1 \<le> frames sim" using assms(1) by simp
  from fifo_abs_run [OF f] lru_abs_run [OF f] lfu_abs_run [OF f] optimal_abs_run [OF f assms(2)]
  obtain a b c d where r: "fifo sim = Inr a" "lru sim = Inr b" "lfu sim = Inr c"
    "optimal iter sim = Inr d"
    and ar: "abs_run 1 (reference_string sim) {} (reset_metrics sim) a"
      "abs_run 1 (reference_string sim) {} (reset_metrics sim) b"
      "abs_run 1 (reference_string sim) {} (reset_metrics sim) c"
      "abs_run 1 (reference_string sim) {} (reset_metrics sim) d"
    unfolding assms(1) by blast
  show ?thesis using r ar [THEN abs_run_single_frame_total] by simp
qed

theorem single_frame_same_faults_witness:
  "frames (init 1 [1, 1, 2, 1, 3, 3]) = 1 \<and> valid_order ascending_order \<and>
   (\<exists>a b c d. fifo (init 1 [1, 1, 2, 1, 3, 3]) = Inr a \<and>
      lru (init 1 [1, 1, 2, 1, 3, 3]) = Inr b \<and>
      lfu (init 1 [1, 1, 2, 1, 3, 3]) = Inr c \<and>
      optimal ascending_order (init 1 [1, 1, 2, 1, 3, 3]) = Inr d \<and>
      page_faults a = page_faults b \<and> page_faults b = page_faults c \<and>
      page_faults c = page_faults d \<and> page_faults d = 4)"
proof -
  have h: "frames (init 1 [1, 1, 2, 1, 3, 3]) = 1" by (simp add: init_def)
  have v: "valid_order ascending_order"
    by (simp add: valid_order_def ascending_order_def)
  have e: "single_frame_faults None (reference_string (init 1 [1, 1, 2, 1, 3, 3])) = 4"
    by (simp add: init_def)
  show ?thesis using single_frame_same_faults [OF h v] h v unfolding e by simp
qed

text \<open>
  C8, as the code has it. The percentage computation is not guarded: on a simulator whose
  reference sequence is empty \<^verbatim>\<open>display_results\<close> divides by \<^verbatim>\<open>len(self.reference_string)\<close>,
  which is 0, and raises \<^verbatim>\<open>ZeroDivisionError\<close>.
\<close>

theorem display_results_unguarded:
  assumes "reference_string self = []"
  shows "display_results self = Inl ZeroDivisionError"
  using assms by (simp add: display_results_def true_div_percent_def)

theorem display_results_unguarded_witness:
  "reference_string (init 4 []) = [] \<and>
   lru (init 4 []) = Inr (init 4 []) \<and>
   display_results (init 4 []) = Inl ZeroDivisionError"
proof -
  have e: "reference_string (init 4 []) = []" by (simp add: init_def)
  have "lru (init 4 []) = Inr (init 4 [])"
    by (simp add: lru_def init_def reset_metrics_def)
  then show ?thesis using display_results_unguarded [OF e] e by simp
qed

text \<open>
  C8 as stated fails: for an empty reference sequence \<open>fifo\<close> returns the simulator
  unchanged, and \<^verbatim>\<open>display_results\<close> on it raises instead of yielding 0.
\<close>

theorem display_results_divides_by_zero_counterexample:
  "fifo (init 3 []) = Inr (init 3 []) \<and>
   display_results (init 3 []) = Inl ZeroDivisionError"
  by (simp add: fifo_def init_def reset_metrics_def display_results_def true_div_percent_def)

text \<open>
  C9. If the frame count is at least 1 and at least the number of distinct pages of the
  reference sequence, every policy returns with as many faults as there are distinct
  pages and with no replacement entry in its log.
\<close>

theorem enough_frames_no_eviction:
  assumes "1 \<le> frames sim" and "int (card (set (reference_string sim))) \<le> frames sim"
    and "valid_order iter"
  shows "(\<exists>r. fifo sim = Inr r \<and> page_faults r = card (set (reference_string sim)) \<and>
              filter is_replacement (log r) = []) \<and>
         (\<exists>r. lru sim = Inr r \<and> page_faults r = card (set (reference_string sim)) \<and>
              filter is_replacement (log r) = []) \<and>
         (\<exists>r. lfu sim = Inr r \<and> page_faults r = card (set (reference_string sim)) \<and>
              filter is_replacement (log r) = []) \<and>
         (\<exists>r. optimal iter sim = Inr r \<and> page_faults r = card (set (reference_string sim)) \<and>
              filter is_replacement (log r) = [])"
  using fifo_abs_run [OF assms(1)] lru_abs_run [OF assms(1)] lfu_abs_run [OF assms(1)]
    optimal_abs_run [OF assms(1,3)]
    abs_run_no_eviction_total [of "frames sim" "reference_string sim" sim, OF _ assms(2)]
  by blast

theorem enough_frames_no_eviction_witness:
  "1 \<le> frames (init 4 [1, 2, 1, 3, 2]) \<and>
   int (card (set (reference_string (init 4 [1, 2, 1, 3, 2])))) \<le> frames (init 4 [1, 2, 1, 3, 2]) \<and>
   valid_order ascending_order \<and>
   (\<exists>r. fifo (init 4 [1, 2, 1, 3, 2]) = Inr r \<and> page_faults r = 3 \<and>
        filter is_replacement (log r) = []) \<and>
   (\<exists>r. lru (init 4 [1, 2, 1, 3, 2]) = Inr r \<and> page_faults r = 3 \<and>
        filter is_replacement (log r) = []) \<and>
   (\<exists>r. lfu (init 4 [1, 2, 1, 3, 2]) = Inr r \<and> page_faults r = 3 \<and>
        filter is_replacement (log r) = []) \<and>
   (\<exists>r. optimal ascending_order (init 4 [1, 2, 1, 3, 2]) = Inr r \<and> page_faults r = 3 \<and>
        filter is_replacement (log r) = [])"
proof -
  have h: "1 \<le> frames (init 4 [1, 2, 1, 3, 2])" by (simp add: init_def)
  have c: "card (set (reference_string (init 4 [1, 2, 1, 3, 2]))) = 3"
    by (simp add: init_def card_insert_if)
  have k: "int (card (set (reference_string (init 4 [1, 2, 1, 3, 2]))))
      \<le> frames (init 4 [1, 2, 1, 3, 2])"
    unfolding c by (simp add: init_def)
  have v: "valid_order ascending_order"
    by (simp add: valid_order_def ascending_order_def)
  show ?thesis using enough_frames_no_eviction [OF h k v] h k v unfolding c by simp
qed

text \<open>
  C10. With zero frames and a non-empty reference sequence, the first loop step of every
  policy, entered with an empty container, takes the eviction branch and raises there:
  \<^verbatim>\<open>popleft\<close> on the empty deque (\<^verbatim>\<open>IndexError\<close>), \<^verbatim>\<open>popitem\<close> on the empty dictionary
  (\<^verbatim>\<open>KeyError\<close>), \<^verbatim>\<open>min\<close> and \<^verbatim>\<open>max\<close> over nothing (\<^verbatim>\<open>ValueError\<close>). So the policy
  function raises and returns no result.
\<close>

theorem zero_frames_fail_at_first_reference:
  assumes "frames sim = 0" and "reference_string sim = p # ps" and "valid_order iter"
  shows "fifo_step ([], reset_metrics sim) p = Inl IndexError \<and> fifo sim = Inl IndexError \<and>
         lru_step ([], reset_metrics sim) p = Inl KeyError \<and> lru sim = Inl KeyError \<and>
         lfu_step ([], (\<lambda>k. 0), reset_metrics sim) p = Inl ValueError \<and>
         lfu sim = Inl ValueError \<and>
         optimal_step iter ([], reset_metrics sim) (0, p) = Inl ValueError \<and>
         optimal iter sim = Inl ValueError"
proof -
  have f: "fifo_step ([], reset_metrics sim) p = Inl IndexError"
    using assms(1) by (simp add: fifo_step_def reset_metrics_def popleft_def)
  have l: "lru_step ([], reset_metrics sim) p = Inl KeyError"
    using assms(1) by (simp add: lru_step_def reset_metrics_def popitem_first_def)
  have u: "lfu_step ([], (\<lambda>k. 0), reset_metrics sim) p = Inl ValueError"
    using assms(1) by (simp add: lfu_step_def reset_metrics_def)
  have ol: "optimal_step iter ([], reset_metrics sim) (0, p) = Inl ValueError"
    using assms(1) valid_order_Nil [OF assms(3)]
    by (simp add: optimal_step_def reset_metrics_def)
  show ?thesis using f l u ol assms(2)
    by (simp add: fifo_def lru_def lfu_def optimal_def)
qed

theorem zero_frames_fail_at_first_reference_witness:
  "frames (init 0 [5, 6]) = 0 \<and> reference_string (init 0 [5, 6]) = 5 # [6] \<and>
   valid_order insertion_order \<and>
   fifo_step ([], reset_metrics (init 0 [5, 6])) 5 = Inl IndexError \<and>
   fifo (init 0 [5, 6]) = Inl IndexError \<and>
   lru_step ([], reset_metrics (init 0 [5, 6])) 5 = Inl KeyError \<and>
   lru (init 0 [5, 6]) = Inl KeyError \<and>
   lfu_step ([], (\<lambda>k. 0), reset_metrics (init 0 [5, 6])) 5 = Inl ValueError \<and>
   lfu (init 0 [5, 6]) = Inl ValueError \<and>
   optimal_step insertion_order ([], reset_metrics (init 0 [5, 6])) (0, 5) = Inl ValueError \<and>
   optimal insertion_order (init 0 [5, 6]) = Inl ValueError"
proof -
  have h: "frames (init 0 [5, 6]) = 0" by (simp add: init_def)
  have e: "reference_string (init 0 [5, 6]) = 5 # [6]" by (simp add: init_def)
  have v: "valid_order insertion_order"
    by (simp add: valid_order_def insertion_order_def)
  show ?thesis using zero_frames_fail_at_first_reference [OF h e v] h e v by simp
qed

end
